theory Spec2Isabelle
  imports Main "HOL-Library.List_Lexorder" "HOL-Library.AList"
begin

section \<open>Python strings and the library functions the scripts call\<close>

text \<open>
  A Python \<open>str\<close> is a sequence of Unicode code points; it is modelled as a list of
  natural numbers. ASCII literals of the source are written with \<open>ustr\<close>.
\<close>

type_synonym ustring = "nat list"

definition ustr :: "string \<Rightarrow> ustring" where
  "ustr s = map of_char s"

text \<open>
  The scripts call into CPython and its Unicode database (\<open>unicodedata\<close>, \<open>re\<close>,
  \<open>str.lower\<close>, \<open>str.strip\<close>, \<open>str.capitalize\<close>, \<open>int\<close>). None of these tables is part
  of the repository, so they are parameters of the model:
  \<^item> \<open>decomposition c\<close>: the full compatibility decomposition of the code point \<open>c\<close>
    (what \<open>unicodedata.normalize('NFKD', chr(c))\<close> expands \<open>c\<close> to, before reordering);
  \<^item> \<open>combining c\<close>: \<open>unicodedata.combining(chr(c))\<close>, the canonical combining class;
  \<^item> \<open>isalnum c\<close>: \<open>Py_UNICODE_ISALNUM\<close>, which with the underscore makes up \<open>\w\<close>;
  \<^item> \<open>isspace c\<close>: \<open>Py_UNICODE_ISSPACE\<close>, used by \<open>\s\<close>, \<open>str.strip()\<close> and \<open>str.split()\<close>;
  \<^item> \<open>tolower c\<close>, \<open>totitle c\<close>: the full lower and title case mappings of one code point;
  \<^item> \<open>cased c\<close>, \<open>case_ignorable c\<close>: the two properties read by the final-sigma rule
    of \<open>str.lower\<close>;
  \<^item> \<open>int_of_str s\<close>: \<open>int(s)\<close>, with \<open>None\<close> for \<open>ValueError\<close>.
\<close>

record py_lib =
  decomposition :: "nat \<Rightarrow> nat list"
  combining :: "nat \<Rightarrow> nat"
  isalnum :: "nat \<Rightarrow> bool"
  isspace :: "nat \<Rightarrow> bool"
  tolower :: "nat \<Rightarrow> nat list"
  totitle :: "nat \<Rightarrow> nat list"
  cased :: "nat \<Rightarrow> bool"
  case_ignorable :: "nat \<Rightarrow> bool"
  int_of_str :: "ustring \<Rightarrow> int option"

subsection \<open>unicodedata.normalize('NFKD', s)\<close>

text \<open>
  NFKD replaces every code point by its full decomposition and then puts each run of
  combining marks (non-zero combining class) into canonical order: a stable sort of the
  run by combining class. \<open>marks\<close> is the run collected so far.
\<close>

fun canonical_order :: "py_lib \<Rightarrow> nat list \<Rightarrow> nat list \<Rightarrow> nat list" where
  "canonical_order U marks [] = sort_key (combining U) marks"
| "canonical_order U marks (c # cs) =
     (if combining U c = 0
      then sort_key (combining U) marks @ c # canonical_order U [] cs
      else canonical_order U (marks @ [c]) cs)"

definition nfkd :: "py_lib \<Rightarrow> ustring \<Rightarrow> ustring" where
  "nfkd U s = canonical_order U [] (concat (map (decomposition U) s))"

subsection \<open>str.lower(), str.capitalize()\<close>

text \<open>
  \<open>str.lower\<close> maps every code point through the full lower case mapping, except
  U+03A3 (capital sigma): that one becomes U+03C2 when it is preceded by a cased letter
  and not followed by one (case-ignorable code points skipped on both sides), and U+03C3
  otherwise. \<open>prev\<close> holds the preceding code points, nearest first.
\<close>

definition final_sigma :: "py_lib \<Rightarrow> nat list \<Rightarrow> nat list \<Rightarrow> bool" where
  "final_sigma U prev rest =
     (case dropWhile (case_ignorable U) prev of
        [] \<Rightarrow> False
      | c # _ \<Rightarrow> cased U c \<and>
          (case dropWhile (case_ignorable U) rest of
             [] \<Rightarrow> True
           | d # _ \<Rightarrow> \<not> cased U d))"

fun lower_from :: "py_lib \<Rightarrow> nat list \<Rightarrow> ustring \<Rightarrow> ustring" where
  "lower_from U prev [] = []"
| "lower_from U prev (c # rest) =
     (if c = 0x3A3 then [if final_sigma U prev rest then 0x3C2 else 0x3C3]
      else tolower U c) @ lower_from U (c # prev) rest"

definition py_lower :: "py_lib \<Rightarrow> ustring \<Rightarrow> ustring" where
  "py_lower U s = lower_from U [] s"

definition py_capitalize :: "py_lib \<Rightarrow> ustring \<Rightarrow> ustring" where
  "py_capitalize U s = (case s of [] \<Rightarrow> [] | c # cs \<Rightarrow> totitle U c @ lower_from U [c] cs)"

subsection \<open>str.strip, str.split, str.join, str.replace\<close>

definition py_strip :: "py_lib \<Rightarrow> ustring \<Rightarrow> ustring" where
  "py_strip U s = rev (dropWhile (isspace U) (rev (dropWhile (isspace U) s)))"


text \<open>\<open>s.split()\<close>: the maximal runs of non-whitespace code points. \<open>word\<close> is the run
  being read.\<close>

fun split_ws :: "py_lib \<Rightarrow> ustring \<Rightarrow> ustring \<Rightarrow> ustring list" where
  "split_ws U word [] = (if word = [] then [] else [word])"
| "split_ws U word (c # cs) =
     (if isspace U c then (if word = [] then [] else [word]) @ split_ws U [] cs
      else split_ws U (word @ [c]) cs)"

definition py_split :: "py_lib \<Rightarrow> ustring \<Rightarrow> ustring list" where
  "py_split U s = split_ws U [] s"

text \<open>\<open>s.split(sep)\<close> for a one-character separator: never the empty list.\<close>

fun py_split_on :: "nat \<Rightarrow> ustring \<Rightarrow> ustring list" where
  "py_split_on sep [] = [[]]"
| "py_split_on sep (c # cs) =
     (if c = sep then [] # py_split_on sep cs
      else (case py_split_on sep cs of
              [] \<Rightarrow> [[c]]
            | w # ws \<Rightarrow> (c # w) # ws))"

fun py_join :: "ustring \<Rightarrow> ustring list \<Rightarrow> ustring" where
  "py_join sep [] = []"
| "py_join sep [w] = w"
| "py_join sep (w # ws) = w @ sep @ py_join sep ws"


section \<open>authors\_works\_aggregate.py\<close>

subsection \<open>normalize\_name\<close>

text \<open>\<open>\w\<close> of a str pattern: an alphanumeric code point or the underscore.\<close>

definition is_word :: "py_lib \<Rightarrow> nat \<Rightarrow> bool" where
  "is_word U c = (isalnum U c \<or> c = 95)"

text \<open>The class \<open>[-\s]\<close>: the hyphen-minus or a whitespace code point.\<close>

definition hyphen_or_space :: "py_lib \<Rightarrow> nat \<Rightarrow> bool" where
  "hyphen_or_space U c = (c = 45 \<or> isspace U c)"

text \<open>\<open>re.sub(r'[-\s]+', ' ', name)\<close>: every maximal run of hyphens and whitespace
  becomes one space.\<close>

function collapse_runs :: "py_lib \<Rightarrow> ustring \<Rightarrow> ustring" where
  "collapse_runs U [] = []"
| "collapse_runs U (c # cs) =
     (if hyphen_or_space U c
      then 32 # collapse_runs U (dropWhile (hyphen_or_space U) cs)
      else c # collapse_runs U cs)"
  by pat_completeness auto
termination
  by (relation "measure (\<lambda>(U, s). length s)") (auto simp: length_dropWhile_le less_Suc_eq_le)

definition normalize_name :: "py_lib \<Rightarrow> ustring \<Rightarrow> ustring" where
  "normalize_name U name =
     (if name = [] then []
      else let name1 = nfkd U name;
               name2 = filter (\<lambda>c. combining U c = 0) name1;
               name3 = filter (\<lambda>c. is_word U c \<or> isspace U c \<or> c = 45) name2;
               name4 = collapse_runs U name3
           in py_strip U (py_lower U name4))"

subsection \<open>The running state of aggregate\_authors\<close>

text \<open>
  A row of \<open>csv.DictReader\<close> is a dictionary from the column names of the header to the
  cells of the line; \<open>row.get(key, default)\<close> gives the default for a column the header
  does not have.
\<close>

type_synonym row = "(string \<times> ustring) list"

definition row_get :: "row \<Rightarrow> string \<Rightarrow> ustring" where
  "row_get r key = (case map_of r key of None \<Rightarrow> [] | Some v \<Rightarrow> v)"

text \<open>One value of the \<open>defaultdict\<close> \<open>author_data\<close>. \<open>cited_by_per_work\<close> is a
  dictionary; it is kept as the list of its items in insertion order.\<close>

record author_group =
  author_ids :: "ustring set"
  work_ids :: "ustring set"
  specific_work_ids :: "ustring set"
  cited_by_per_work :: "(ustring \<times> int) list"
  years :: "int set"
  source_ids :: "ustring set"
  institutions :: "ustring set"
  countries :: "ustring set"
  affiliations :: "ustring set"

definition new_group :: author_group where
  "new_group = \<lparr>author_ids = {}, work_ids = {}, specific_work_ids = {},
     cited_by_per_work = [], years = {}, source_ids = {}, institutions = {},
     countries = {}, affiliations = {}\<rparr>"

text \<open>The local variables of \<open>aggregate_authors\<close> that live across the loop.
  \<open>author_data\<close> keeps the insertion order of its keys, which is the order of the
  output rows before sorting. (\<open>row_count\<close> is only printed and is left out.)\<close>

record agg_state =
  normalized_to_group_id :: "ustring \<rightharpoonup> nat"
  name_to_group_id :: "ustring \<rightharpoonup> nat"
  group_id_counter :: nat
  group_normalized_names :: "nat \<rightharpoonup> ustring"
  author_data :: "(nat \<times> author_group) list"

definition init_state :: agg_state where
  "init_state = \<lparr>normalized_to_group_id = Map.empty, name_to_group_id = Map.empty,
     group_id_counter = 0, group_normalized_names = Map.empty, author_data = []\<rparr>"

subsection \<open>The loop body\<close>

text \<open>Lines 61 to 74: the group id of a stripped, non-empty author name.\<close>

definition resolve_group :: "py_lib \<Rightarrow> agg_state \<Rightarrow> ustring \<Rightarrow> nat \<times> agg_state" where
  "resolve_group U st author_name =
     (case name_to_group_id st author_name of
        Some group_id \<Rightarrow> (group_id, st)
      | None \<Rightarrow>
          let normalized_name = normalize_name U author_name;
              (group_id, st1) =
                (case normalized_to_group_id st normalized_name of
                   Some g \<Rightarrow> (g, st)
                 | None \<Rightarrow>
                     (group_id_counter st,
                      st\<lparr>group_id_counter := group_id_counter st + 1,
                         normalized_to_group_id :=
                           (normalized_to_group_id st)(normalized_name \<mapsto> group_id_counter st),
                         group_normalized_names :=
                           (group_normalized_names st)(group_id_counter st \<mapsto> normalized_name)\<rparr>))
          in (group_id, st1\<lparr>name_to_group_id := (name_to_group_id st1)(author_name \<mapsto> group_id)\<rparr>))"

text \<open>\<open>int(row.get('cited_by_count', 0))\<close>: 0 when the column is missing, \<open>None\<close>
  when \<open>int\<close> raises \<open>ValueError\<close>.\<close>

definition cited_by_of :: "py_lib \<Rightarrow> row \<Rightarrow> int option" where
  "cited_by_of U r =
     (case map_of r ''cited_by_count'' of None \<Rightarrow> Some 0 | Some s \<Rightarrow> int_of_str U s)"

text \<open>The loops over \<open>field.split(';')\<close>: the stripped, non-empty parts.\<close>

definition split_items :: "py_lib \<Rightarrow> ustring \<Rightarrow> ustring set" where
  "split_items U field =
     (if field = [] then {}
      else set (filter (\<lambda>w. w \<noteq> []) (map (py_strip U) (py_split_on 59 field))))"

definition year_of :: "py_lib \<Rightarrow> ustring \<Rightarrow> int option" where
  "year_of U pub_date =
     (if pub_date \<noteq> [] \<and> 4 \<le> length pub_date
      then (case int_of_str U (take 4 pub_date) of
              None \<Rightarrow> None
            | Some year \<Rightarrow> if 1900 \<le> year \<and> year \<le> 2100 then Some year else None)
      else None)"

text \<open>Lines 78 to 126: what one row adds to the data of its group.\<close>

definition accumulate :: "py_lib \<Rightarrow> row \<Rightarrow> ustring \<Rightarrow> author_group \<Rightarrow> author_group" where
  "accumulate U r work_id data =
     (let author_id = py_strip U (row_get r ''author_id'');
          source_id = py_strip U (row_get r ''source_id'')
      in data\<lparr>
           author_ids := (if author_id \<noteq> [] then insert author_id (author_ids data)
                          else author_ids data),
           work_ids := insert work_id (work_ids data),
           source_ids := (if source_id \<noteq> [] then insert source_id (source_ids data)
                          else source_ids data),
           specific_work_ids :=
             (if py_lower U (row_get r ''references_israel'') \<in> {ustr ''yes'', ustr ''true'', ustr ''1''}
              then insert work_id (specific_work_ids data) else specific_work_ids data),
           cited_by_per_work :=
             (case cited_by_of U r of
                None \<Rightarrow> cited_by_per_work data
              | Some cited_by \<Rightarrow>
                  if work_id \<notin> fst ` set (cited_by_per_work data)
                  then cited_by_per_work data @ [(work_id, cited_by)]
                  else cited_by_per_work data),
           years := (case year_of U (row_get r ''publication_date'') of
                       None \<Rightarrow> years data
                     | Some year \<Rightarrow> insert year (years data)),
           institutions := institutions data \<union> split_items U (row_get r ''institutions''),
           countries := countries data \<union> split_items U (row_get r ''countries''),
           affiliations := affiliations data \<union> split_items U (row_get r ''affiliations_comment'')\<rparr>)"

text \<open>\<open>author_data[group_id]\<close> of the \<open>defaultdict\<close>.\<close>

definition data_of :: "agg_state \<Rightarrow> nat \<Rightarrow> author_group" where
  "data_of st group_id =
     (case map_of (author_data st) group_id of None \<Rightarrow> new_group | Some d \<Rightarrow> d)"

text \<open>Lines 50 to 126: one iteration of the loop over the rows.\<close>

definition process_row :: "py_lib \<Rightarrow> agg_state \<Rightarrow> row \<Rightarrow> agg_state" where
  "process_row U st r =
     (let author_name = py_strip U (row_get r ''author_name'') in
      if author_name = [] then st
      else let work_id = py_strip U (row_get r ''id'') in
      if work_id = [] then st
      else let (group_id, st1) = resolve_group U st author_name
           in st1\<lparr>author_data :=
                   AList.update group_id (accumulate U r work_id (data_of st1 group_id))
                     (author_data st1)\<rparr>)"

definition run_rows :: "py_lib \<Rightarrow> row list \<Rightarrow> agg_state" where
  "run_rows U rows = foldl (process_row U) init_state rows"

subsection \<open>The output rows\<close>

record summary =
  s_author_name :: ustring
  s_author_ids :: ustring
  works_count :: nat
  specific_works_count :: nat
  journals_count :: nat
  cited_by_count :: int
  min_year :: "int option"
  max_year :: "int option"
  s_institutions :: ustring
  s_countries :: ustring
  s_affiliations_comment :: ustring

text \<open>\<open>' '.join(word.capitalize() for word in normalized_name.split())\<close>.\<close>

definition title_case :: "py_lib \<Rightarrow> ustring \<Rightarrow> ustring" where
  "title_case U normalized_name =
     (if normalized_name = [] then []
      else py_join [32] (map (py_capitalize U) (py_split U normalized_name)))"

text \<open>Lines 133 to 149: the output row of one group. An empty \<open>min_year\<close> or
  \<open>max_year\<close> cell is \<open>None\<close>.\<close>

definition summary_row :: "py_lib \<Rightarrow> agg_state \<Rightarrow> nat \<times> author_group \<Rightarrow> summary" where
  "summary_row U st entry =
     (let group_id = fst entry; data = snd entry;
          years_list = (if years data \<noteq> {} then sorted_list_of_set (years data) else []);
          normalized_name =
            (case group_normalized_names st group_id of None \<Rightarrow> [] | Some n \<Rightarrow> n)
      in \<lparr>s_author_name = title_case U normalized_name,
          s_author_ids = py_join [59] (sorted_list_of_set (author_ids data)),
          works_count = card (work_ids data),
          specific_works_count = card (specific_work_ids data),
          journals_count = card (source_ids data),
          cited_by_count = sum_list (map snd (cited_by_per_work data)),
          min_year = (if years_list \<noteq> [] then Some (hd years_list) else None),
          max_year = (if years_list \<noteq> [] then Some (last years_list) else None),
          s_institutions = py_join [59] (sorted_list_of_set (institutions data)),
          s_countries = py_join [59] (sorted_list_of_set (countries data)),
          s_affiliations_comment = py_join [59] (sorted_list_of_set (affiliations data))\<rparr>)"

text \<open>Lines 131 to 152 and 167: the rows in the insertion order of \<open>author_data\<close>,
  then \<open>sort(key=works_count, reverse=True)\<close>, which is stable.\<close>

definition output_rows :: "py_lib \<Rightarrow> agg_state \<Rightarrow> summary list" where
  "output_rows U st = map (summary_row U st) (author_data st)"

definition aggregate_authors :: "py_lib \<Rightarrow> row list \<Rightarrow> summary list" where
  "aggregate_authors U rows =
     (let st = run_rows U rows
      in sort_key (\<lambda>x. - int (works_count x)) (output_rows U st))"

section \<open>authors\_works.py\<close>

subsection \<open>The JSON payload\<close>

text \<open>
  A work of the upstream API, with the keys the script reads. A value the script guards
  against being absent or \<open>null\<close> is an \<open>option\<close>; the id and the display name of a
  source are read without such a guard and are plain strings (empty when the key is
  missing). An institution and a keyword are modelled by their \<open>display_name\<close>.
\<close>

datatype author = Author (author_id: "ustring option")

record authorship =
  a_author :: "author option"
  a_raw_author_name :: "ustring option"
  a_institutions :: "ustring option list"
  a_countries :: "ustring option list"
  a_raw_affiliation_strings :: "ustring option list"

record source =
  src_id :: ustring
  src_display_name :: ustring

record work =
  w_id :: "ustring option"
  w_doi :: "ustring option"
  w_title :: "ustring option"
  w_publication_date :: "ustring option"
  w_primary_location :: "source option option"
  w_authorships :: "authorship list"
  w_cited_by_count :: "int option"
  w_keywords :: "ustring option list"

definition openalex_prefix :: ustring where
  "openalex_prefix = ustr ''https://openalex.org/''"


subsection \<open>\_load\_search\_results\_work\_ids and \_extract\_author\_works\<close>





subsection \<open>\_extract\_work\_data\_for\_author\<close>








subsection \<open>fetch\_author\_works\<close>

text \<open>
  The upstream API is a function from the author id and the cursor of a request to the
  response: the HTTP status, \<open>data.get('results', [])\<close> and
  \<open>data.get('meta', {}).get('next_cursor')\<close>.
\<close>

record response =
  status :: int
  results :: "work list"
  next_cursor :: "ustring option"

type_synonym server = "ustring \<Rightarrow> ustring \<Rightarrow> response"

text \<open>What one call does besides returning: entering and leaving
  \<open>async with rate_limiter\<close>, each \<open>session.get\<close> with its cursor, and the warning.\<close>

datatype event = Acquire | Request ustring | Warning int | Release

text \<open>
  The \<open>while cursor\<close> loop of lines 127 to 143, with the works and the events so far. The
  loop runs for as long as the server hands out full pages with a cursor, so it need
  not return: not returning is \<open>None\<close>.
\<close>

partial_function (option) fetch_pages ::
    "server \<Rightarrow> ustring \<Rightarrow> ustring option \<Rightarrow> work list \<Rightarrow> event list
       \<Rightarrow> (work list \<times> event list) option" where
  "fetch_pages srv aid cursor all_works evs =
     (case cursor of
        None \<Rightarrow> Some (all_works, evs)
      | Some c \<Rightarrow>
          if c = [] then Some (all_works, evs)
          else let resp = srv aid c; evs1 = evs @ [Request c] in
            if status resp \<noteq> 200 then Some (all_works, evs1 @ [Warning (status resp)])
            else let all_works1 = all_works @ results resp;
                     cursor1 = (case next_cursor resp of
                                  None \<Rightarrow> None
                                | Some n \<Rightarrow> if n \<noteq> [] then Some n else None)
                 in if length (results resp) < 200 then Some (all_works1, evs1)
                    else fetch_pages srv aid cursor1 all_works1 evs1)"

text \<open>The number of permits acquired and of page requests issued in a run.\<close>

fun is_request :: "event \<Rightarrow> bool" where
  "is_request (Request c) = True"
| "is_request e = False"

definition acquisitions :: "event list \<Rightarrow> nat" where
  "acquisitions evs = count_list evs Acquire"

definition page_requests :: "event list \<Rightarrow> nat" where
  "page_requests evs = length (filter is_request evs)"

definition fetch_author_works_events :: "server \<Rightarrow> ustring \<Rightarrow> (work list \<times> event list) option" where
  "fetch_author_works_events srv aid =
     (case fetch_pages srv aid (Some (ustr ''*'')) [] [Acquire] of
        None \<Rightarrow> None
      | Some (all_works, evs) \<Rightarrow> Some (all_works, evs @ [Release]))"

definition fetch_author_works :: "server \<Rightarrow> ustring \<Rightarrow> work list option" where
  "fetch_author_works srv aid = map_option fst (fetch_author_works_events srv aid)"

subsection \<open>enrich\_authors\_with\_all\_works\<close>

text \<open>
  \<open>gather\<close> returns the results of the fetches in the order of \<open>author_ids\<close> (here \<open>ids\<close>), once all
  of them have returned. The two semaphores decide when a fetch runs, not what it
  returns: the server is a function of the request.
\<close>

fun gather :: "'a option list \<Rightarrow> 'a list option" where
  "gather [] = Some []"
| "gather (x # xs) =
     (case x of None \<Rightarrow> None
      | Some v \<Rightarrow> (case gather xs of None \<Rightarrow> None | Some vs \<Rightarrow> Some (v # vs)))"

definition enrich_authors_with_all_works ::
    "server \<Rightarrow> ustring list \<Rightarrow> (ustring \<rightharpoonup> work list) option" where
  "enrich_authors_with_all_works srv ids =
     (case gather (map (fetch_author_works srv) ids) of
        None \<Rightarrow> None
      | Some all_author_works \<Rightarrow>
          Some (foldl (\<lambda>d (aid, works). if works \<noteq> [] then d(aid \<mapsto> works) else d)
                  Map.empty (zip ids all_author_works)))"

subsection \<open>main\<close>








section \<open>An excerpt of the Unicode character database\<close>

text \<open>
  The examples below are evaluated on the following instance of the library. It gives
  the properties of the Unicode character database for ASCII, for NO-BREAK SPACE
  (U+00A0), the letters U+00C9, U+00CD, U+00E9, U+00ED (E and I with acute, capital and
  small), COMBINING ACUTE ACCENT (U+0301) and the Greek letters U+0391 (capital alpha),
  U+0392 (capital beta), U+03A3 (capital sigma), U+03B1, U+03B2, U+03C2 (final sigma)
  and U+03C3 (small sigma). Every other code point is treated as a symbol without
  decomposition and without case.
\<close>

definition ucd_decomposition :: "nat \<Rightarrow> nat list" where
  "ucd_decomposition c =
     (if c = 0xA0 then [0x20]
      else if c = 0xC9 then [0x45, 0x301]
      else if c = 0xCD then [0x49, 0x301]
      else if c = 0xE9 then [0x65, 0x301]
      else if c = 0xED then [0x69, 0x301]
      else [c])"

definition ucd_combining :: "nat \<Rightarrow> nat" where
  "ucd_combining c = (if c = 0x301 then 230 else 0)"

definition ucd_letter :: "nat \<Rightarrow> bool" where
  "ucd_letter c =
     (65 \<le> c \<and> c \<le> 90 \<or> 97 \<le> c \<and> c \<le> 122 \<or>
      c \<in> {0xC9, 0xCD, 0xE9, 0xED, 0x391, 0x392, 0x3A3, 0x3B1, 0x3B2, 0x3C2, 0x3C3})"

definition ucd_isalnum :: "nat \<Rightarrow> bool" where
  "ucd_isalnum c = (48 \<le> c \<and> c \<le> 57 \<or> ucd_letter c)"

definition ucd_isspace :: "nat \<Rightarrow> bool" where
  "ucd_isspace c = (9 \<le> c \<and> c \<le> 13 \<or> 28 \<le> c \<and> c \<le> 32 \<or> c = 0x85 \<or> c = 0xA0)"

definition ucd_tolower :: "nat \<Rightarrow> nat list" where
  "ucd_tolower c =
     (if 65 \<le> c \<and> c \<le> 90 then [c + 32]
      else if c = 0xC9 then [0xE9]
      else if c = 0xCD then [0xED]
      else if c = 0x391 then [0x3B1]
      else if c = 0x392 then [0x3B2]
      else if c = 0x3A3 then [0x3C3]
      else [c])"

definition ucd_totitle :: "nat \<Rightarrow> nat list" where
  "ucd_totitle c =
     (if 97 \<le> c \<and> c \<le> 122 then [c - 32]
      else if c = 0xE9 then [0xC9]
      else if c = 0xED then [0xCD]
      else if c = 0x3B1 then [0x391]
      else if c = 0x3B2 then [0x392]
      else if c = 0x3C2 \<or> c = 0x3C3 then [0x3A3]
      else [c])"

definition ucd_case_ignorable :: "nat \<Rightarrow> bool" where
  "ucd_case_ignorable c = (c \<in> {0x27, 0x2E, 0x3A, 0x5E, 0x60, 0x301})"

text \<open>\<open>int(s)\<close> on ASCII: optional whitespace around an optional sign and decimal
  digits, which single underscores may separate.\<close>

definition is_digit :: "nat \<Rightarrow> bool" where
  "is_digit c = (48 \<le> c \<and> c \<le> 57)"

fun digits_value :: "int \<Rightarrow> nat list \<Rightarrow> int option" where
  "digits_value v [] = Some v"
| "digits_value v (c # cs) =
     (if is_digit c then digits_value (10 * v + int (c - 48)) cs
      else if c = 95 \<and> cs \<noteq> [] \<and> is_digit (hd cs) then digits_value v cs
      else None)"

definition ascii_int :: "ustring \<Rightarrow> int option" where
  "ascii_int s =
     (let t = rev (dropWhile ucd_isspace (rev (dropWhile ucd_isspace s)));
          sgn = (if take 1 t = [45] then - 1 else 1);
          ds = (if take 1 t = [45] \<or> take 1 t = [43] then drop 1 t else t)
      in if ds \<noteq> [] \<and> is_digit (hd ds) then map_option (\<lambda>v. sgn * v) (digits_value 0 ds)
         else None)"

definition ucd :: py_lib where
  "ucd = \<lparr>decomposition = ucd_decomposition, combining = ucd_combining,
     isalnum = ucd_isalnum, isspace = ucd_isspace, tolower = ucd_tolower,
     totitle = ucd_totitle, cased = ucd_letter, case_ignorable = ucd_case_ignorable,
     int_of_str = ascii_int\<rparr>"

section \<open>Sample payloads\<close>

text \<open>A work with one authorship, and servers over such works, for the examples.\<close>

definition sample_authorship :: "ustring \<Rightarrow> ustring \<Rightarrow> authorship" where
  "sample_authorship aid name =
     \<lparr>a_author = Some (Author (Some (openalex_prefix @ aid))), a_raw_author_name = Some name,
      a_institutions = [], a_countries = [], a_raw_affiliation_strings = []\<rparr>"

definition sample_work :: "ustring \<Rightarrow> authorship list \<Rightarrow> work" where
  "sample_work wid auths =
     \<lparr>w_id = Some (openalex_prefix @ wid), w_doi = None, w_title = None,
      w_publication_date = None, w_primary_location = None, w_authorships = auths,
      w_cited_by_count = Some 0, w_keywords = []\<rparr>"

definition full_page :: "work list" where
  "full_page = replicate 200 (sample_work (ustr ''W1'') [sample_authorship (ustr ''A'') (ustr ''Ann'')])"

definition last_page :: "work list" where
  "last_page = [sample_work (ustr ''W2'') [sample_authorship (ustr ''A'') (ustr ''Ann'')]]"

text \<open>A server with two pages for every author: a full page of 200 works with a next
  cursor, then a page of one work.\<close>

definition two_page_server :: server where
  "two_page_server aid c =
     (if c = ustr ''*'' then \<lparr>status = 200, results = full_page, next_cursor = Some (ustr ''p2'')\<rparr>
      else \<lparr>status = 200, results = last_page, next_cursor = None\<rparr>)"

text \<open>A server that answers author \<open>A\<close> with one full page and then with status 500,
  author \<open>B\<close> with one page of one work, and every other author with an empty page.\<close>

definition flaky_server :: server where
  "flaky_server aid c =
     (if aid = ustr ''A''
      then (if c = ustr ''*''
            then \<lparr>status = 200, results = full_page, next_cursor = Some (ustr ''p2'')\<rparr>
            else \<lparr>status = 500, results = [], next_cursor = None\<rparr>)
      else if aid = ustr ''B''
      then \<lparr>status = 200,
             results = [sample_work (ustr ''W3'') [sample_authorship (ustr ''B'') (ustr ''Bob'')]],
             next_cursor = None\<rparr>
      else \<lparr>status = 200, results = [], next_cursor = None\<rparr>)"





section \<open>Sample rows of authors\_works.csv\<close>

text \<open>A row with a whitespace-only author name.\<close>

definition blank_name_row :: row where
  "blank_name_row =
     [(''id'', ustr ''W1''), (''author_name'', ustr ''  ''), (''author_id'', ustr ''A1''),
      (''cited_by_count'', ustr ''7'')]"

text \<open>Two rows with the same work id, author id and author name, and different
  institutions.\<close>

definition ann_row_x :: row where
  "ann_row_x =
     [(''id'', ustr ''W1''), (''author_name'', ustr ''Ann''), (''author_id'', ustr ''A1''),
      (''cited_by_count'', ustr ''7''), (''institutions'', ustr ''X'')]"

definition ann_row_y :: row where
  "ann_row_y =
     [(''id'', ustr ''W1''), (''author_name'', ustr ''Ann''), (''author_id'', ustr ''A1''),
      (''cited_by_count'', ustr ''7''), (''institutions'', ustr ''Y'')]"

text \<open>Two spellings of one author on two works, with another author between them.\<close>

definition smith_rows :: "row list" where
  "smith_rows =
     [[(''id'', ustr ''W1''), (''author_name'', ustr ''J. Smith''), (''cited_by_count'', ustr ''3'')],
      [(''id'', ustr ''W1''), (''author_name'', ustr ''Ann''), (''cited_by_count'', ustr ''3'')],
      [(''id'', ustr ''W2''), (''author_name'', ustr ''j smith''), (''cited_by_count'', ustr ''4'')]]"

text \<open>Two rows of one author and one work: the first has an empty \<open>cited_by_count\<close>
  cell, the second has 5.\<close>

definition late_count_rows :: "row list" where
  "late_count_rows =
     [[(''id'', ustr ''W1''), (''author_name'', ustr ''Ann''), (''cited_by_count'', [])],
      [(''id'', ustr ''W1''), (''author_name'', ustr ''Ann''), (''cited_by_count'', ustr ''5'')]]"

section \<open>Predicates of the statements\<close>


text \<open>The stripped author name and work id of a row (lines 53 and 57), the canonical
  key of its name, and whether the loop processes the row or skips it.\<close>

definition name_of :: "py_lib \<Rightarrow> row \<Rightarrow> ustring" where
  "name_of U r = py_strip U (row_get r ''author_name'')"

definition work_of :: "py_lib \<Rightarrow> row \<Rightarrow> ustring" where
  "work_of U r = py_strip U (row_get r ''id'')"

definition key_of :: "py_lib \<Rightarrow> row \<Rightarrow> ustring" where
  "key_of U r = normalize_name U (name_of U r)"

definition processed :: "py_lib \<Rightarrow> row \<Rightarrow> bool" where
  "processed U r = (name_of U r \<noteq> [] \<and> work_of U r \<noteq> [])"

text \<open>A sequence without its repeated rows: of equal rows the first is kept. \<open>seen\<close>
  holds the rows kept so far.\<close>

fun dedup_from :: "'a list \<Rightarrow> 'a list \<Rightarrow> 'a list" where
  "dedup_from seen [] = []"
| "dedup_from seen (x # xs) =
     (if x \<in> set seen then dedup_from seen xs else x # dedup_from (x # seen) xs)"

definition deduplicated :: "'a list \<Rightarrow> 'a list" where
  "deduplicated xs = dedup_from [] xs"

text \<open>A group's data holds all that a row with work id \<open>wx\<close> would add to it.\<close>

definition holds_row :: "py_lib \<Rightarrow> row \<Rightarrow> ustring \<Rightarrow> author_group \<Rightarrow> bool" where
  "holds_row U x wx d =
     ((py_strip U (row_get x ''author_id'') \<noteq> [] \<longrightarrow>
         py_strip U (row_get x ''author_id'') \<in> author_ids d) \<and>
      wx \<in> work_ids d \<and>
      (py_strip U (row_get x ''source_id'') \<noteq> [] \<longrightarrow>
         py_strip U (row_get x ''source_id'') \<in> source_ids d) \<and>
      (py_lower U (row_get x ''references_israel'') \<in> {ustr ''yes'', ustr ''true'', ustr ''1''}
           \<longrightarrow> wx \<in> specific_work_ids d) \<and>
      (cited_by_of U x \<noteq> None \<longrightarrow> wx \<in> fst ` set (cited_by_per_work d)) \<and>
      (\<forall>y. year_of U (row_get x ''publication_date'') = Some y \<longrightarrow> y \<in> years d) \<and>
      split_items U (row_get x ''institutions'') \<subseteq> institutions d \<and>
      split_items U (row_get x ''countries'') \<subseteq> countries d \<and>
      split_items U (row_get x ''affiliations_comment'') \<subseteq> affiliations d)"

text \<open>A row that the state has taken in already: processing it again changes
  nothing.\<close>

definition absorbed :: "py_lib \<Rightarrow> agg_state \<Rightarrow> row \<Rightarrow> bool" where
  "absorbed U st r =
     (\<not> processed U r \<or>
      (\<exists>g d. name_to_group_id st (name_of U r) = Some g \<and> map_of (author_data st) g = Some d \<and>
             accumulate U r (work_of U r) d = d))"

text \<open>The invariant of the Identity Grouper: a raw name is cached under the id of its
  canonical key; the key-to-id and id-to-name mappings are inverse to each other; the
  ids in use are the numbers below the counter; and \<open>author_data\<close> has one entry per
  id, in the order of allocation.\<close>

definition grouper_ok :: "py_lib \<Rightarrow> agg_state \<Rightarrow> bool" where
  "grouper_ok U st =
     ((\<forall>a g. name_to_group_id st a = Some g \<longrightarrow>
          normalized_to_group_id st (normalize_name U a) = Some g) \<and>
      (\<forall>k g. normalized_to_group_id st k = Some g \<longrightarrow> group_normalized_names st g = Some k) \<and>
      (\<forall>g k. group_normalized_names st g = Some k \<longrightarrow>
          g < group_id_counter st \<and> normalized_to_group_id st k = Some g) \<and>
      map fst (author_data st) = [0..<group_id_counter st])"

text \<open>The group id that the loop resolves for the row at index \<open>i\<close> (lines 61 to 74), in
  the state reached after the rows before it.\<close>

definition group_id_at :: "py_lib \<Rightarrow> row list \<Rightarrow> nat \<Rightarrow> nat" where
  "group_id_at U rows i = fst (resolve_group U (run_rows U (take i rows)) (name_of U (rows ! i)))"

text \<open>The rows of the input that the loop files under the canonical key \<open>k\<close>.\<close>

definition group_rows :: "py_lib \<Rightarrow> ustring \<Rightarrow> row list \<Rightarrow> row list" where
  "group_rows U k rows = filter (\<lambda>r. processed U r \<and> key_of U r = k) rows"

text \<open>The rows whose \<open>cited_by_count\<close> is an integer, the value of the first of them
  for a work id, and the sum of these values over the work ids that have one.\<close>

definition cited_rows :: "py_lib \<Rightarrow> row list \<Rightarrow> row list" where
  "cited_rows U rs = filter (\<lambda>r. cited_by_of U r \<noteq> None) rs"

definition first_cited :: "py_lib \<Rightarrow> row list \<Rightarrow> ustring \<Rightarrow> int option" where
  "first_cited U rs w =
     (case filter (\<lambda>r. work_of U r = w) (cited_rows U rs) of
        [] \<Rightarrow> None
      | r # _ \<Rightarrow> cited_by_of U r)"

definition citation_total :: "py_lib \<Rightarrow> row list \<Rightarrow> int" where
  "citation_total U rs = (\<Sum>w \<in> work_of U ` set (cited_rows U rs). the (first_cited U rs w))"

text \<open>The reading of the specification: the citation value of the first row seen for
  a work id, whether it is an integer or not.\<close>

definition first_row_value :: "py_lib \<Rightarrow> row list \<Rightarrow> ustring \<Rightarrow> int option" where
  "first_row_value U rs w =
     (case filter (\<lambda>r. work_of U r = w) rs of
        [] \<Rightarrow> None
      | r # _ \<Rightarrow> cited_by_of U r)"

text \<open>What the data of a group is after the rows \<open>rs\<close> of the group.\<close>

definition data_for :: "py_lib \<Rightarrow> row list \<Rightarrow> author_group \<Rightarrow> bool" where
  "data_for U rs d =
     (work_ids d = work_of U ` set rs \<and> distinct (map fst (cited_by_per_work d)) \<and>
      map_of (cited_by_per_work d) = first_cited U rs)"

text \<open>The invariant of \<open>author_data\<close> after the rows \<open>rows\<close>: the data of every group
  is the data for the rows filed under the name of the group.\<close>

definition data_ok :: "py_lib \<Rightarrow> row list \<Rightarrow> agg_state \<Rightarrow> bool" where
  "data_ok U rows st =
     (\<forall>g d. map_of (author_data st) g = Some d \<longrightarrow>
        (\<exists>k. group_normalized_names st g = Some k \<and> data_for U (group_rows U k rows) d))"

section \<open>Assumptions on the Unicode tables\<close>

text \<open>A code point that the first steps of \<open>normalize_name\<close> keep as it is: a word
  character that is not a combining mark and is its own decomposition. It is settled
  when lowercasing keeps it too.\<close>

definition kept :: "py_lib \<Rightarrow> nat \<Rightarrow> bool" where
  "kept U c = (is_word U c \<and> combining U c = 0 \<and> decomposition U c = [c])"

definition settled :: "py_lib \<Rightarrow> nat \<Rightarrow> bool" where
  "settled U c = (kept U c \<and> tolower U c = [c] \<and> c \<noteq> 0x3A3)"

text \<open>
  The facts about the tables that the properties of \<open>normalize_name\<close> rest on:
  \<^item> the space U+0020 is whitespace, is its own decomposition and lower case, and is
    neither cased nor case-ignorable; the hyphen-minus U+002D is not alphanumeric and is
    its own decomposition; neither is a combining mark;
  \<^item> no word character is whitespace;
  \<^item> a full decomposition is fully decomposed;
  \<^item> whitespace decomposes into whitespace;
  \<^item> the lower case of a kept code point other than capital sigma is not empty and
    consists of settled code points, and the two small sigmas are settled.
\<close>

definition lib_ok :: "py_lib \<Rightarrow> bool" where
  "lib_ok U =
     (isspace U 32 \<and> combining U 32 = 0 \<and> decomposition U 32 = [32] \<and> tolower U 32 = [32] \<and>
      \<not> cased U 32 \<and> \<not> case_ignorable U 32 \<and>
      \<not> isalnum U 45 \<and> combining U 45 = 0 \<and> decomposition U 45 = [45] \<and>
      (\<forall>c. is_word U c \<longrightarrow> \<not> isspace U c) \<and>
      (\<forall>c d. d \<in> set (decomposition U c) \<longrightarrow> decomposition U d = [d]) \<and>
      (\<forall>c d. isspace U c \<and> d \<in> set (decomposition U c) \<longrightarrow> isspace U d) \<and>
      (\<forall>c. kept U c \<and> c \<noteq> 0x3A3 \<longrightarrow>
           tolower U c \<noteq> [] \<and> (\<forall>d \<in> set (tolower U c). settled U d)) \<and>
      settled U 0x3C2 \<and> settled U 0x3C3)"

text \<open>The value of \<open>name\<close> in \<open>normalize_name\<close> after line 19, before it is lowercased
  and stripped.\<close>

definition cleaned :: "py_lib \<Rightarrow> ustring \<Rightarrow> ustring" where
  "cleaned U name =
     collapse_runs U
       (filter (\<lambda>c. is_word U c \<or> isspace U c \<or> c = 45)
          (filter (\<lambda>c. combining U c = 0) (nfkd U name)))"

text \<open>No two spaces in a row.\<close>

fun single_spaced :: "nat list \<Rightarrow> bool" where
  "single_spaced (a # b # s) = (\<not> (a = 32 \<and> b = 32) \<and> single_spaced (b # s))"
| "single_spaced s = True"

text \<open>
  The code points of a name that carry it through normalization: those of its
  decomposition that are not combining marks.
\<close>

definition base_chars :: "py_lib \<Rightarrow> ustring \<Rightarrow> ustring" where
  "base_chars U n = filter (\<lambda>c. combining U c = 0) (concat (map (decomposition U) n))"

text \<open>
  Two alphanumeric code points that differ only in case: they have the same lower case and
  the same standing in the context of a sigma. The capital sigma U+03A3 is kept out, its
  lower case depends on where it stands.
\<close>

definition case_pair :: "py_lib \<Rightarrow> nat \<Rightarrow> nat \<Rightarrow> bool" where
  "case_pair U c d =
     (c \<noteq> 0x3A3 \<and> d \<noteq> 0x3A3 \<and> isalnum U c \<and> isalnum U d \<and> tolower U c = tolower U d \<and>
      cased U c = cased U d \<and> case_ignorable U c = case_ignorable U d)"

text \<open>
  Code points that differ at most in case, or are both a hyphen or whitespace.
\<close>

definition similar :: "py_lib \<Rightarrow> nat \<Rightarrow> nat \<Rightarrow> bool" where
  "similar U c d =
     (c = d \<or> (hyphen_or_space U c \<and> hyphen_or_space U d) \<or> case_pair U c d)"

definition case_similar :: "py_lib \<Rightarrow> nat \<Rightarrow> nat \<Rightarrow> bool" where
  "case_similar U c d = (c = d \<or> case_pair U c d)"
section \<open>Properties of the fetch engine\<close>

subsection \<open>Unfolding the pagination loop\<close>

lemma fetch_pages_done:
  "fetch_pages srv aid None ws evs = Some (ws, evs)"
  by (subst fetch_pages.simps) simp

lemma fetch_pages_error:
  "c \<noteq> [] \<Longrightarrow> status (srv aid c) \<noteq> 200 \<Longrightarrow>
   fetch_pages srv aid (Some c) ws evs = Some (ws, evs @ [Request c, Warning (status (srv aid c))])"
  by (subst fetch_pages.simps) simp

lemma fetch_pages_short:
  "c \<noteq> [] \<Longrightarrow> status (srv aid c) = 200 \<Longrightarrow> length (results (srv aid c)) < 200 \<Longrightarrow>
   fetch_pages srv aid (Some c) ws evs = Some (ws @ results (srv aid c), evs @ [Request c])"
  by (subst fetch_pages.simps) simp

lemma fetch_pages_full:
  "c \<noteq> [] \<Longrightarrow> status (srv aid c) = 200 \<Longrightarrow> \<not> length (results (srv aid c)) < 200 \<Longrightarrow>
   fetch_pages srv aid (Some c) ws evs =
   fetch_pages srv aid
     (case next_cursor (srv aid c) of None \<Rightarrow> None | Some n \<Rightarrow> if n \<noteq> [] then Some n else None)
     (ws @ results (srv aid c)) (evs @ [Request c])"
  by (subst fetch_pages.simps) (simp add: Let_def)

lemmas fetch_eval = fetch_pages_done fetch_pages_error fetch_pages_short fetch_pages_full
  fetch_author_works_def fetch_author_works_events_def

text \<open>The loop only appends requests and warnings to the events.\<close>

lemma fetch_pages_events:
  assumes "fetch_pages srv aid cursor ws evs = Some y"
  shows "\<exists>more. snd y = evs @ more \<and> Acquire \<notin> set more \<and> Release \<notin> set more"
  using assms
proof (induction rule: fetch_pages.raw_induct[rotated 1, consumes 1])
  case (1 fetch_pages srv aid cursor all_works evs y)
  show ?case
  proof (cases cursor)
    case None
    with 1(2) show ?thesis by auto
  next
    case (Some c)
    show ?thesis
    proof (cases "c = []")
      case True
      with Some 1(2) show ?thesis by auto
    next
      case False
      show ?thesis
      proof (cases "status (srv aid c) \<noteq> 200")
        case True
        with Some False 1(2) show ?thesis by (auto simp: Let_def)
      next
        case ok: False
        show ?thesis
        proof (cases "length (results (srv aid c)) < 200")
          case True
          with Some False ok 1(2) show ?thesis by (auto simp: Let_def)
        next
          case full: False
          from Some False ok full 1(2)
          have "fetch_pages srv aid
                  (case next_cursor (srv aid c) of None \<Rightarrow> None
                   | Some n \<Rightarrow> if n \<noteq> [] then Some n else None)
                  (all_works @ results (srv aid c)) (evs @ [Request c]) = Some y"
            by (simp add: Let_def)
          from 1(1)[OF this] obtain more where
            "snd y = (evs @ [Request c]) @ more" "Acquire \<notin> set more" "Release \<notin> set more"
            by blast
          then show ?thesis by auto
        qed
      qed
    qed
  qed
qed

text \<open>The first iteration always issues the request for the cursor \<open>*\<close>.\<close>

lemma fetch_pages_first_request:
  assumes "fetch_pages srv aid (Some (ustr ''*'')) [] [Acquire] = Some y"
  shows "\<exists>more. snd y = [Acquire, Request (ustr ''*'')] @ more \<and>
           Acquire \<notin> set more \<and> Release \<notin> set more"
proof -
  let ?c = "ustr ''*''"
  have ne: "?c \<noteq> []" by (simp add: ustr_def)
  show ?thesis
  proof (cases "status (srv aid ?c) \<noteq> 200")
    case True
    with assms ne show ?thesis by (simp add: fetch_pages_error) auto
  next
    case ok: False
    show ?thesis
    proof (cases "length (results (srv aid ?c)) < 200")
      case True
      with assms ne ok show ?thesis by (simp add: fetch_pages_short) auto
    next
      case False
      with assms ne ok have
        "fetch_pages srv aid
           (case next_cursor (srv aid ?c) of None \<Rightarrow> None
            | Some n \<Rightarrow> if n \<noteq> [] then Some n else None)
           ([] @ results (srv aid ?c)) ([Acquire] @ [Request ?c]) = Some y"
        by (simp add: fetch_pages_full)
      from fetch_pages_events[OF this] show ?thesis by auto
    qed
  qed
qed

subsection \<open>Permits and page requests\<close>

text \<open>
  Claim C2, as stated, fails: the number of permits acquired during the pagination of
  one entity need not be the number of page requests. On a server that has two pages
  for author \<open>A\<close>, the fetch acquires one permit and issues two requests.
\<close>

theorem permits_differ_from_requests:
  "map_option (acquisitions \<circ> snd) (fetch_author_works_events two_page_server (ustr ''A'')) = Some 1 \<and>
   map_option (page_requests \<circ> snd) (fetch_author_works_events two_page_server (ustr ''A'')) = Some 2"
  by (simp add: fetch_eval two_page_server_def ustr_def full_page_def last_page_def
      acquisitions_def page_requests_def)

text \<open>
  Claim C2, amended: every fetch of one entity that returns has acquired exactly one
  permit, before its first page request, and released it once, after its last; it has
  issued at least one page request under that permit.
\<close>

theorem one_permit_per_entity:
  assumes "fetch_author_works_events srv aid = Some (ws, evs)"
  shows "acquisitions evs = 1 \<and> 1 \<le> page_requests evs \<and>
         hd evs = Acquire \<and> last evs = Release \<and> count_list evs Release = 1"
proof -
  from assms obtain y where
    y: "fetch_pages srv aid (Some (ustr ''*'')) [] [Acquire] = Some y" and
    evs: "evs = snd y @ [Release]"
    by (auto simp: fetch_author_works_events_def split: option.splits)
  from fetch_pages_first_request[OF y] obtain more where
    more: "snd y = [Acquire, Request (ustr ''*'')] @ more"
      "Acquire \<notin> set more" "Release \<notin> set more"
    by blast
  have "count_list more Acquire = 0" "count_list more Release = 0"
    using more(2,3) by (simp_all add: count_list_0_iff)
  with evs more(1) show ?thesis
    by (simp add: acquisitions_def page_requests_def)
qed

theorem one_permit_per_entity_witness:
  "fetch_author_works_events two_page_server (ustr ''A'') =
     Some (full_page @ last_page,
           [Acquire, Request (ustr ''*''), Request (ustr ''p2''), Release]) \<and>
   acquisitions [Acquire, Request (ustr ''*''), Request (ustr ''p2''), Release] = 1 \<and>
   1 \<le> page_requests [Acquire, Request (ustr ''*''), Request (ustr ''p2''), Release]"
proof -
  have run: "fetch_author_works_events two_page_server (ustr ''A'') =
     Some (full_page @ last_page,
           [Acquire, Request (ustr ''*''), Request (ustr ''p2''), Release])"
    by (simp add: fetch_eval two_page_server_def ustr_def full_page_def last_page_def)
  from one_permit_per_entity[OF run] run show ?thesis by simp
qed

subsection \<open>Independence of the fetches\<close>

lemma gather_all:
  assumes "\<forall>x \<in> set ids. f x \<noteq> None"
  shows "gather (map f ids) = Some (map (\<lambda>x. the (f x)) ids)"
  using assms by (induction ids) auto

lemma collect_works_lookup:
  "foldl (\<lambda>d (aid, works). if works \<noteq> [] then d(aid \<mapsto> works) else d) d0
     (zip ids (map g ids)) x =
   (if x \<in> set ids \<and> g x \<noteq> [] then Some (g x) else d0 x)"
  by (induction ids arbitrary: d0) auto

text \<open>When every fetch returns, the mapping holds exactly the non-empty results.\<close>

lemma enrich_lookup:
  assumes "\<forall>x \<in> set ids. fetch_author_works srv x \<noteq> None"
  shows "\<exists>m. enrich_authors_with_all_works srv ids = Some m \<and>
           (\<forall>x. m x = (if x \<in> set ids \<and> fetch_author_works srv x \<noteq> Some []
                       then fetch_author_works srv x else None))"
proof -
  let ?g = "\<lambda>x. the (fetch_author_works srv x)"
  let ?m = "foldl (\<lambda>d (aid, works). if works \<noteq> [] then d(aid \<mapsto> works) else d) Map.empty
              (zip ids (map ?g ids))"
  have "enrich_authors_with_all_works srv ids = Some ?m"
    by (simp add: enrich_authors_with_all_works_def gather_all[OF assms])
  moreover have "?m x = (if x \<in> set ids \<and> fetch_author_works srv x \<noteq> Some []
                       then fetch_author_works srv x else None)" for x
    using assms by (cases "x \<in> set ids") (auto simp: collect_works_lookup)
  ultimately show ?thesis by blast
qed

text \<open>A fetch that gets one full page and then a non-success status returns that page.\<close>

lemma fetch_partial:
  assumes "status (srv a (ustr ''*'')) = 200"
    and "\<not> length (results (srv a (ustr ''*''))) < 200"
    and "next_cursor (srv a (ustr ''*'')) = Some c" and "c \<noteq> []"
    and "status (srv a c) \<noteq> 200"
  shows "fetch_author_works srv a = Some (results (srv a (ustr ''*'')))"
proof -
  have ne: "ustr ''*'' \<noteq> []" by (simp add: ustr_def)
  show ?thesis
    using assms ne by (simp add: fetch_eval)
qed

text \<open>
  Claim C1, as stated, fails in one corner: when the fetch of the sibling succeeds with
  zero records, the returned mapping has no entry for it. On the server below, author
  \<open>A\<close> fails on its second page and author \<open>C\<close> succeeds with an empty page; the mapping
  holds the first page of \<open>A\<close> and nothing for \<open>C\<close>.
\<close>

theorem empty_sibling_is_omitted:
  "fetch_author_works flaky_server (ustr ''C'') = Some [] \<and>
   enrich_authors_with_all_works flaky_server [ustr ''A'', ustr ''C''] =
     Some [ustr ''A'' \<mapsto> full_page]"
proof -
  have a: "fetch_author_works flaky_server (ustr ''A'') = Some full_page"
    by (simp add: fetch_eval flaky_server_def ustr_def full_page_def)
  have c: "fetch_author_works flaky_server (ustr ''C'') = Some []"
    by (simp add: fetch_eval flaky_server_def ustr_def)
  have "full_page \<noteq> []" by (simp add: full_page_def)
  with a c show ?thesis
    by (simp add: enrich_authors_with_all_works_def)
qed

text \<open>
  Claim C1, amended: let the fetch of \<open>A\<close> get a non-success status on its second page
  after one successful (full) page, let the fetch of \<open>B\<close> return the records \<open>wsB\<close>, and
  let the fetches of the other requested entities return. Then
  \<open>enrich_authors_with_all_works\<close> returns a mapping; it holds the first page of \<open>A\<close>,
  and it holds all of \<open>wsB\<close> for \<open>B\<close> when \<open>wsB\<close> is not empty (an entity with zero
  records is left out of the mapping). The failure of \<open>A\<close> changes nothing for \<open>B\<close>.
\<close>

theorem partial_failure_is_isolated:
  assumes "A \<in> set ids" and "B \<in> set ids"
    and "status (srv A (ustr ''*'')) = 200"
    and "\<not> length (results (srv A (ustr ''*''))) < 200"
    and "next_cursor (srv A (ustr ''*'')) = Some c" and "c \<noteq> []"
    and "status (srv A c) \<noteq> 200"
    and "fetch_author_works srv B = Some wsB"
    and "\<forall>x \<in> set ids. x \<noteq> A \<longrightarrow> fetch_author_works srv x \<noteq> None"
  shows "\<exists>m. enrich_authors_with_all_works srv ids = Some m \<and>
           m A = Some (results (srv A (ustr ''*''))) \<and>
           m B = (if wsB = [] then None else Some wsB)"
proof -
  have fa: "fetch_author_works srv A = Some (results (srv A (ustr ''*'')))"
    using assms(3-7) by (rule fetch_partial)
  have "results (srv A (ustr ''*'')) \<noteq> []"
    using assms(4) by auto
  moreover have "\<forall>x \<in> set ids. fetch_author_works srv x \<noteq> None"
    using fa assms(9) by auto
  from enrich_lookup[OF this] obtain m where
    m: "enrich_authors_with_all_works srv ids = Some m"
       "\<And>x. m x = (if x \<in> set ids \<and> fetch_author_works srv x \<noteq> Some []
                    then fetch_author_works srv x else None)"
    by blast
  ultimately have "m A = Some (results (srv A (ustr ''*'')))"
    using assms(1) fa by (simp add: m(2))
  moreover have "m B = (if wsB = [] then None else Some wsB)"
    using assms(2,8) by (simp add: m(2))
  ultimately show ?thesis using m(1) by blast
qed

theorem partial_failure_is_isolated_witness:
  "enrich_authors_with_all_works flaky_server [ustr ''A'', ustr ''B''] =
     Some [ustr ''A'' \<mapsto> full_page,
           ustr ''B'' \<mapsto> [sample_work (ustr ''W3'') [sample_authorship (ustr ''B'') (ustr ''Bob'')]]]"
proof -
  let ?ids = "[ustr ''A'', ustr ''B'']"
  let ?wsB = "[sample_work (ustr ''W3'') [sample_authorship (ustr ''B'') (ustr ''Bob'')]]"
  have star: "flaky_server (ustr ''A'') (ustr ''*'') =
      \<lparr>status = 200, results = full_page, next_cursor = Some (ustr ''p2'')\<rparr>"
    by (simp add: flaky_server_def)
  have p2: "status (flaky_server (ustr ''A'') (ustr ''p2'')) \<noteq> 200"
    by (simp add: flaky_server_def ustr_def)
  have b: "fetch_author_works flaky_server (ustr ''B'') = Some ?wsB"
    by (simp add: fetch_eval flaky_server_def ustr_def)
  have others: "\<forall>x \<in> set ?ids. x \<noteq> ustr ''A'' \<longrightarrow> fetch_author_works flaky_server x \<noteq> None"
    using b by simp
  have h1: "ustr ''A'' \<in> set ?ids" and h2: "ustr ''B'' \<in> set ?ids"
    by simp_all
  have h3: "status (flaky_server (ustr ''A'') (ustr ''*'')) = 200"
    and h4: "\<not> length (results (flaky_server (ustr ''A'') (ustr ''*''))) < 200"
    and h5: "next_cursor (flaky_server (ustr ''A'') (ustr ''*'')) = Some (ustr ''p2'')"
    by (simp_all add: star full_page_def)
  have h6: "ustr ''p2'' \<noteq> []"
    by (simp add: ustr_def)
  have "\<exists>m. enrich_authors_with_all_works flaky_server ?ids = Some m \<and>
           m (ustr ''A'') = Some (results (flaky_server (ustr ''A'') (ustr ''*''))) \<and>
           m (ustr ''B'') = (if ?wsB = [] then None else Some ?wsB)"
    by (rule partial_failure_is_isolated[OF h1 h2 h3 h4 h5 h6 p2 b others])
  then obtain m where m: "enrich_authors_with_all_works flaky_server ?ids = Some m"
    "m (ustr ''A'') = Some full_page" "m (ustr ''B'') = Some ?wsB"
    by (auto simp: star)
  have a: "fetch_author_works flaky_server (ustr ''A'') = Some full_page"
    by (simp add: fetch_eval flaky_server_def ustr_def full_page_def)
  have "full_page \<noteq> []" by (simp add: full_page_def)
  with a b have "enrich_authors_with_all_works flaky_server ?ids =
      Some [ustr ''A'' \<mapsto> full_page, ustr ''B'' \<mapsto> ?wsB]"
    by (simp add: enrich_authors_with_all_works_def)
  with m show ?thesis by simp
qed

section \<open>Properties of the per-pair pipeline\<close>







subsection \<open>A run of main on the sample payload\<close>






subsection \<open>One row per pair\<close>



subsection \<open>Only authors of the search results\<close>



section \<open>Properties of the aggregator\<close>

subsection \<open>Strings\<close>

lemma all_dropWhile_iff: "(\<forall>x \<in> set (dropWhile P s). P x) \<longleftrightarrow> (\<forall>x \<in> set s. P x)"
proof
  assume a: "\<forall>x \<in> set (dropWhile P s). P x"
  have "dropWhile P s = []"
  proof (rule ccontr)
    assume ne: "dropWhile P s \<noteq> []"
    then have "\<not> P (hd (dropWhile P s))" by (rule hd_dropWhile)
    moreover from ne have "hd (dropWhile P s) \<in> set (dropWhile P s)" by simp
    ultimately show False using a by blast
  qed
  then show "\<forall>x \<in> set s. P x" by (simp add: dropWhile_eq_Nil_conv)
next
  assume "\<forall>x \<in> set s. P x"
  then show "\<forall>x \<in> set (dropWhile P s). P x" by (meson set_dropWhileD)
qed

lemma py_strip_empty_iff: "py_strip U s = [] \<longleftrightarrow> (\<forall>c \<in> set s. isspace U c)"
  by (simp add: py_strip_def dropWhile_eq_Nil_conv all_dropWhile_iff)

subsection \<open>What one row adds to a group\<close>

lemma accumulate_sel:
  "author_ids (accumulate U r w d) =
     (if py_strip U (row_get r ''author_id'') \<noteq> []
      then insert (py_strip U (row_get r ''author_id'')) (author_ids d) else author_ids d)"
  "work_ids (accumulate U r w d) = insert w (work_ids d)"
  "source_ids (accumulate U r w d) =
     (if py_strip U (row_get r ''source_id'') \<noteq> []
      then insert (py_strip U (row_get r ''source_id'')) (source_ids d) else source_ids d)"
  "specific_work_ids (accumulate U r w d) =
     (if py_lower U (row_get r ''references_israel'') \<in> {ustr ''yes'', ustr ''true'', ustr ''1''}
      then insert w (specific_work_ids d) else specific_work_ids d)"
  "cited_by_per_work (accumulate U r w d) =
     (case cited_by_of U r of
        None \<Rightarrow> cited_by_per_work d
      | Some cited_by \<Rightarrow>
          if w \<notin> fst ` set (cited_by_per_work d)
          then cited_by_per_work d @ [(w, cited_by)]
          else cited_by_per_work d)"
  "years (accumulate U r w d) =
     (case year_of U (row_get r ''publication_date'') of
        None \<Rightarrow> years d
      | Some year \<Rightarrow> insert year (years d))"
  "institutions (accumulate U r w d) = institutions d \<union> split_items U (row_get r ''institutions'')"
  "countries (accumulate U r w d) = countries d \<union> split_items U (row_get r ''countries'')"
  "affiliations (accumulate U r w d) =
     affiliations d \<union> split_items U (row_get r ''affiliations_comment'')"
  "author_group.more (accumulate U r w d) = author_group.more d"
  unfolding accumulate_def Let_def by simp_all


lemma process_row_unfold:
  "process_row U st r =
     (if \<not> processed U r then st
      else let (g, st1) = resolve_group U st (name_of U r)
           in st1\<lparr>author_data :=
                   AList.update g (accumulate U r (work_of U r) (data_of st1 g)) (author_data st1)\<rparr>)"
  by (simp add: process_row_def processed_def name_of_def work_of_def Let_def)

lemma run_rows_snoc: "run_rows U (rows @ [r]) = process_row U (run_rows U rows) r"
  by (simp add: run_rows_def)

lemma if_insert_fixed: "(if P then insert x S else S) = S \<Longrightarrow> P \<longrightarrow> x \<in> S"
  by (cases P) (simp_all add: insert_absorb, metis insertI1)

lemma un_fixed: "S \<union> T = S \<Longrightarrow> T \<subseteq> S"
  by (metis Un_upper2)

lemma accumulate_fields:
  assumes "accumulate U x wx d = d"
  shows "holds_row U x wx d"
proof -
  have 1: "py_strip U (row_get x ''author_id'') \<noteq> [] \<longrightarrow> py_strip U (row_get x ''author_id'') \<in> author_ids d"
    using arg_cong[OF assms, of author_ids] unfolding accumulate_sel by (rule if_insert_fixed)
  have 2: "wx \<in> work_ids d"
    using arg_cong[OF assms, of work_ids] unfolding accumulate_sel by (metis insertI1)
  have 3: "py_strip U (row_get x ''source_id'') \<noteq> [] \<longrightarrow> py_strip U (row_get x ''source_id'') \<in> source_ids d"
    using arg_cong[OF assms, of source_ids] unfolding accumulate_sel by (rule if_insert_fixed)
  have 4: "py_lower U (row_get x ''references_israel'') \<in> {ustr ''yes'', ustr ''true'', ustr ''1''}
           \<longrightarrow> wx \<in> specific_work_ids d"
    using arg_cong[OF assms, of specific_work_ids] unfolding accumulate_sel by (rule if_insert_fixed)
  have 5: "cited_by_of U x \<noteq> None \<longrightarrow> wx \<in> fst ` set (cited_by_per_work d)"
  proof (cases "cited_by_of U x")
    case None
    then show ?thesis by simp
  next
    case (Some v)
    have "(if wx \<notin> fst ` set (cited_by_per_work d) then cited_by_per_work d @ [(wx, v)]
           else cited_by_per_work d) = cited_by_per_work d"
      using arg_cong[OF assms, of cited_by_per_work] unfolding accumulate_sel Some by simp
    then show ?thesis by (cases "wx \<in> fst ` set (cited_by_per_work d)") simp_all
  qed
  have 6: "\<forall>y. year_of U (row_get x ''publication_date'') = Some y \<longrightarrow> y \<in> years d"
  proof (intro allI impI)
    fix y assume y: "year_of U (row_get x ''publication_date'') = Some y"
    have "insert y (years d) = years d"
      using arg_cong[OF assms, of years] unfolding accumulate_sel y by simp
    then show "y \<in> years d" by (metis insertI1)
  qed
  have 7: "split_items U (row_get x ''institutions'') \<subseteq> institutions d"
    using arg_cong[OF assms, of institutions] unfolding accumulate_sel by (rule un_fixed)
  have 8: "split_items U (row_get x ''countries'') \<subseteq> countries d"
    using arg_cong[OF assms, of countries] unfolding accumulate_sel by (rule un_fixed)
  have 9: "split_items U (row_get x ''affiliations_comment'') \<subseteq> affiliations d"
    using arg_cong[OF assms, of affiliations] unfolding accumulate_sel by (rule un_fixed)
  show ?thesis unfolding holds_row_def by (intro conjI 1 2 3 4 5 6 7 8 9)
qed

lemma accumulate_fixed:
  assumes "holds_row U x wx d"
  shows "accumulate U x wx d = d"
proof (rule author_group.equality)
  note h = assms[unfolded holds_row_def]
  show "author_ids (accumulate U x wx d) = author_ids d"
    using h unfolding accumulate_sel by (simp add: insert_absorb)
  show "work_ids (accumulate U x wx d) = work_ids d"
    using h unfolding accumulate_sel by (simp add: insert_absorb)
  show "source_ids (accumulate U x wx d) = source_ids d"
    using h unfolding accumulate_sel by (simp add: insert_absorb)
  show "specific_work_ids (accumulate U x wx d) = specific_work_ids d"
    using h unfolding accumulate_sel by (simp add: insert_absorb)
  show "cited_by_per_work (accumulate U x wx d) = cited_by_per_work d"
    using h unfolding accumulate_sel by (cases "cited_by_of U x") simp_all
  show "years (accumulate U x wx d) = years d"
    using h unfolding accumulate_sel
    by (cases "year_of U (row_get x ''publication_date'')") (simp_all add: insert_absorb)
  show "institutions (accumulate U x wx d) = institutions d"
    using h unfolding accumulate_sel by blast
  show "countries (accumulate U x wx d) = countries d"
    using h unfolding accumulate_sel by blast
  show "affiliations (accumulate U x wx d) = affiliations d"
    using h unfolding accumulate_sel by blast
  show "author_group.more (accumulate U x wx d) = author_group.more d"
    by (simp add: accumulate_sel)
qed

lemma holds_row_self: "holds_row U r w (accumulate U r w d)"
  unfolding holds_row_def accumulate_sel
  by (cases "cited_by_of U r") auto

lemma holds_row_mono:
  assumes "holds_row U x wx d"
  shows "holds_row U x wx (accumulate U r w d)"
proof -
  note h = assms[unfolded holds_row_def]
  let ?d = "accumulate U r w d"
  have 1: "py_strip U (row_get x ''author_id'') \<noteq> [] \<longrightarrow> py_strip U (row_get x ''author_id'') \<in> author_ids ?d"
    using h by (simp add: accumulate_sel)
  have 2: "wx \<in> work_ids ?d"
    using h by (simp add: accumulate_sel)
  have 3: "py_strip U (row_get x ''source_id'') \<noteq> [] \<longrightarrow> py_strip U (row_get x ''source_id'') \<in> source_ids ?d"
    using h by (simp add: accumulate_sel)
  have 4: "py_lower U (row_get x ''references_israel'') \<in> {ustr ''yes'', ustr ''true'', ustr ''1''}
           \<longrightarrow> wx \<in> specific_work_ids ?d"
    using conjunct1[OF conjunct2[OF conjunct2[OF conjunct2[OF h]]]]
    unfolding accumulate_sel by (cases "py_lower U (row_get r ''references_israel'') \<in> {ustr ''yes'', ustr ''true'', ustr ''1''}") (simp_all only: if_True if_False insert_iff, blast+)
  have 5: "cited_by_of U x \<noteq> None \<longrightarrow> wx \<in> fst ` set (cited_by_per_work ?d)"
    using conjunct1[OF conjunct2[OF conjunct2[OF conjunct2[OF conjunct2[OF h]]]]]
    by (cases "cited_by_of U r") (auto simp: accumulate_sel)
  have 6: "\<forall>y. year_of U (row_get x ''publication_date'') = Some y \<longrightarrow> y \<in> years ?d"
    using conjunct1[OF conjunct2[OF conjunct2[OF conjunct2[OF conjunct2[OF conjunct2[OF h]]]]]]
    by (cases "year_of U (row_get r ''publication_date'')") (auto simp: accumulate_sel)
  have 7: "split_items U (row_get x ''institutions'') \<subseteq> institutions ?d"
    using h unfolding accumulate_sel by (meson le_supI1)
  have 8: "split_items U (row_get x ''countries'') \<subseteq> countries ?d"
    using h unfolding accumulate_sel by (meson le_supI1)
  have 9: "split_items U (row_get x ''affiliations_comment'') \<subseteq> affiliations ?d"
    using h unfolding accumulate_sel by (meson le_supI1)
  show ?thesis unfolding holds_row_def by (intro conjI 1 2 3 4 5 6 7 8 9)
qed


lemma accumulate_idem: "accumulate U r w (accumulate U r w d) = accumulate U r w d"
  by (rule accumulate_fixed[OF holds_row_self])

lemma accumulate_absorb:
  assumes "accumulate U x wx d = d"
  shows "accumulate U x wx (accumulate U r w d) = accumulate U r w d"
  by (rule accumulate_fixed[OF holds_row_mono[OF accumulate_fields[OF assms]]])

subsection \<open>Rows that change nothing\<close>

lemma resolve_known:
  "name_to_group_id st a = Some g \<Longrightarrow> resolve_group U st a = (g, st)"
  by (simp add: resolve_group_def)

lemma resolve_author_data:
  "author_data (snd (resolve_group U st a)) = author_data st"
  by (cases "name_to_group_id st a"; cases "normalized_to_group_id st (normalize_name U a)")
     (simp_all add: resolve_group_def Let_def)

lemma resolve_names_kept:
  "name_to_group_id st b = Some g \<Longrightarrow> name_to_group_id (snd (resolve_group U st a)) b = Some g"
  by (cases "name_to_group_id st a"; cases "normalized_to_group_id st (normalize_name U a)")
     (auto simp: resolve_group_def Let_def)

lemma resolve_name_set:
  "name_to_group_id (snd (resolve_group U st a)) a = Some (fst (resolve_group U st a))"
  by (cases "name_to_group_id st a"; cases "normalized_to_group_id st (normalize_name U a)")
     (simp_all add: resolve_group_def Let_def)

lemma process_row_names:
  assumes "processed U r"
  shows "name_to_group_id (process_row U st r) = name_to_group_id (snd (resolve_group U st (name_of U r)))"
  using assms by (simp add: process_row_unfold Let_def split_beta)

lemma process_row_data:
  assumes "processed U r"
  shows "map_of (author_data (process_row U st r)) =
           (map_of (author_data st))(fst (resolve_group U st (name_of U r)) \<mapsto>
              accumulate U r (work_of U r) (data_of st (fst (resolve_group U st (name_of U r)))))"
  using assms
  by (simp add: process_row_unfold Let_def split_beta update_conv' data_of_def resolve_author_data)

lemma absorbed_noop:
  assumes "absorbed U st r"
  shows "process_row U st r = st"
proof (cases "processed U r")
  case False
  then show ?thesis by (simp add: process_row_unfold)
next
  case True
  with assms obtain g d where
    g: "name_to_group_id st (name_of U r) = Some g" and
    d: "map_of (author_data st) g = Some d" and
    fx: "accumulate U r (work_of U r) d = d"
    unfolding absorbed_def by blast
  have "AList.update g d (author_data st) = author_data st"
    using d by (rule update_triv)
  with True d fx show ?thesis
    by (simp add: process_row_unfold resolve_known[OF g] data_of_def)
qed

lemma absorbed_step:
  assumes "absorbed U st x"
  shows "absorbed U (process_row U st r) x"
proof (cases "processed U x \<and> processed U r")
  case False
  with assms show ?thesis unfolding absorbed_def by (auto simp: process_row_unfold)
next
  case True
  with assms obtain g d where
    g: "name_to_group_id st (name_of U x) = Some g" and
    d: "map_of (author_data st) g = Some d" and
    fx: "accumulate U x (work_of U x) d = d"
    unfolding absorbed_def by blast
  let ?g = "fst (resolve_group U st (name_of U r))"
  have n: "name_to_group_id (process_row U st r) (name_of U x) = Some g"
    using True g by (simp add: process_row_names resolve_names_kept)
  show ?thesis
  proof (cases "g = ?g")
    case same: True
    have "map_of (author_data (process_row U st r)) g = Some (accumulate U r (work_of U r) d)"
      using True d same by (simp add: process_row_data data_of_def)
    moreover have "accumulate U x (work_of U x) (accumulate U r (work_of U r) d)
                     = accumulate U r (work_of U r) d"
      using fx by (rule accumulate_absorb)
    ultimately show ?thesis using n unfolding absorbed_def by blast
  next
    case False
    have "map_of (author_data (process_row U st r)) g = Some d"
      using True d False by (simp add: process_row_data)
    with n fx show ?thesis unfolding absorbed_def by blast
  qed
qed

lemma absorbed_self: "absorbed U (process_row U st r) r"
proof (cases "processed U r")
  case False
  then show ?thesis by (simp add: absorbed_def)
next
  case True
  let ?g = "fst (resolve_group U st (name_of U r))"
  have "name_to_group_id (process_row U st r) (name_of U r) = Some ?g"
    using True by (simp add: process_row_names resolve_name_set)
  moreover have "map_of (author_data (process_row U st r)) ?g
      = Some (accumulate U r (work_of U r) (data_of st ?g))"
    using True by (simp add: process_row_data)
  ultimately show ?thesis
    unfolding absorbed_def using accumulate_idem by blast
qed

lemma run_dedup:
  assumes "\<forall>x \<in> set seen. absorbed U st x"
  shows "foldl (process_row U) st rows = foldl (process_row U) st (dedup_from seen rows)"
  using assms
proof (induction rows arbitrary: st seen)
  case Nil
  then show ?case by simp
next
  case (Cons r rows)
  show ?case
  proof (cases "r \<in> set seen")
    case True
    with Cons.prems have "process_row U st r = st" by (simp add: absorbed_noop)
    with True Cons show ?thesis by simp
  next
    case False
    have "\<forall>x \<in> set (r # seen). absorbed U (process_row U st r) x"
      using Cons.prems by (simp add: absorbed_self absorbed_step)
    from Cons.IH[OF this] False show ?thesis by simp
  qed
qed

text \<open>
  Claim C9, as stated, fails: a row whose author name is empty or whitespace-only is not
  routed to any group. Aggregating the single row \<open>blank_name_row\<close>, whose name is two
  spaces, gives no output row at all.
\<close>

theorem blank_name_row_has_no_group:
  "aggregate_authors ucd [blank_name_row] = []"
  by code_simp

text \<open>
  Claim C9, amended: for every input row whose author name is empty or whitespace-only,
  the aggregator does not fail and skips the row: the state of the loop is unchanged, no
  group is created or updated, and the output is the output for the input without the
  row.
\<close>

theorem blank_author_row_is_skipped:
  assumes "\<forall>c \<in> set (row_get r ''author_name''). isspace U c"
  shows "process_row U st r = st \<and>
         aggregate_authors U (xs @ r # ys) = aggregate_authors U (xs @ ys)"
proof -
  have "name_of U r = []"
    using assms by (simp add: name_of_def py_strip_empty_iff)
  then have step: "process_row U st r = st" for st
    by (simp add: process_row_unfold processed_def)
  then have "run_rows U (xs @ r # ys) = run_rows U (xs @ ys)"
    by (simp add: run_rows_def)
  with step show ?thesis by (simp add: aggregate_authors_def)
qed

theorem blank_author_row_is_skipped_witness:
  "list_all (isspace ucd) (row_get blank_name_row ''author_name'') \<and>
   row_get blank_name_row ''author_name'' = ustr ''  '' \<and>
   process_row ucd init_state blank_name_row = init_state \<and>
   aggregate_authors ucd ([ann_row_x] @ blank_name_row # [ann_row_y]) =
     aggregate_authors ucd ([ann_row_x] @ [ann_row_y])"
proof -
  have l: "list_all (isspace ucd) (row_get blank_name_row ''author_name'')"
    by code_simp
  have n: "row_get blank_name_row ''author_name'' = ustr ''  ''"
    by code_simp
  from l have h: "\<forall>c \<in> set (row_get blank_name_row ''author_name''). isspace ucd c"
    by (simp add: list_all_iff)
  from blank_author_row_is_skipped[OF h, of init_state "[ann_row_x]" "[ann_row_y]"] l n
  show ?thesis by blast
qed

subsection \<open>Repeated rows\<close>

text \<open>
  Claim C8, as stated, fails: the aggregator has no notion of a \<open>(work_id, author_id)\<close>
  pair. The rows \<open>ann_row_x\<close> and \<open>ann_row_y\<close> have the same work id, author id and
  author name and differ in their institutions; aggregating both gives the institutions
  \<open>X;Y\<close>, aggregating the first alone gives \<open>X\<close>.
\<close>

theorem pair_duplicates_change_output:
  "row_get ann_row_y ''id'' = row_get ann_row_x ''id'' \<and>
   row_get ann_row_y ''author_id'' = row_get ann_row_x ''author_id'' \<and>
   map s_institutions (aggregate_authors ucd [ann_row_x, ann_row_y]) = [ustr ''X;Y''] \<and>
   map s_institutions (aggregate_authors ucd [ann_row_x]) = [ustr ''X'']"
  by code_simp

text \<open>
  Claim C8, amended: running the aggregator on a row sequence in which whole rows are
  repeated gives the output of running it on the sequence without the repetitions (of
  equal rows the first is kept).
\<close>

theorem repeated_rows_change_nothing:
  "aggregate_authors U rows = aggregate_authors U (deduplicated rows)"
proof -
  have "run_rows U rows = run_rows U (deduplicated rows)"
    unfolding run_rows_def deduplicated_def by (rule run_dedup) simp
  then show ?thesis by (simp add: aggregate_authors_def)
qed

theorem repeated_rows_change_nothing_witness:
  "deduplicated [ann_row_x, ann_row_y, ann_row_x, ann_row_y] = [ann_row_x, ann_row_y] \<and>
   aggregate_authors ucd [ann_row_x, ann_row_y, ann_row_x, ann_row_y] =
     aggregate_authors ucd [ann_row_x, ann_row_y]"
proof -
  have d: "deduplicated [ann_row_x, ann_row_y, ann_row_x, ann_row_y] = [ann_row_x, ann_row_y]"
    by code_simp
  from repeated_rows_change_nothing[of ucd "[ann_row_x, ann_row_y, ann_row_x, ann_row_y]"] d
  show ?thesis by simp
qed

subsection \<open>The Identity Grouper\<close>

lemma resolve_group_key:
  "name_to_group_id st a = None \<Longrightarrow> normalized_to_group_id st (normalize_name U a) = Some g \<Longrightarrow>
   resolve_group U st a = (g, st\<lparr>name_to_group_id := (name_to_group_id st)(a \<mapsto> g)\<rparr>)"
  by (simp add: resolve_group_def Let_def)

lemma resolve_group_new:
  "name_to_group_id st a = None \<Longrightarrow> normalized_to_group_id st (normalize_name U a) = None \<Longrightarrow>
   resolve_group U st a =
     (group_id_counter st,
      st\<lparr>group_id_counter := group_id_counter st + 1,
         normalized_to_group_id := (normalized_to_group_id st)(normalize_name U a \<mapsto> group_id_counter st),
         group_normalized_names := (group_normalized_names st)(group_id_counter st \<mapsto> normalize_name U a),
         name_to_group_id := (name_to_group_id st)(a \<mapsto> group_id_counter st)\<rparr>)"
  by (simp add: resolve_group_def Let_def)

text \<open>The three ways a processed row changes the state.\<close>

lemma process_row_cases:
  assumes "processed U r" and "grouper_ok U st"
  obtains
    (known) g where "normalized_to_group_id st (key_of U r) = Some g"
      "fst (resolve_group U st (name_of U r)) = g"
      "process_row U st r =
         st\<lparr>name_to_group_id := (name_to_group_id st)(name_of U r \<mapsto> g),
            author_data := AList.update g (accumulate U r (work_of U r) (data_of st g)) (author_data st)\<rparr>"
  | (new) "normalized_to_group_id st (key_of U r) = None"
      "fst (resolve_group U st (name_of U r)) = group_id_counter st"
      "process_row U st r =
         st\<lparr>group_id_counter := group_id_counter st + 1,
            normalized_to_group_id := (normalized_to_group_id st)(key_of U r \<mapsto> group_id_counter st),
            group_normalized_names := (group_normalized_names st)(group_id_counter st \<mapsto> key_of U r),
            name_to_group_id := (name_to_group_id st)(name_of U r \<mapsto> group_id_counter st),
            author_data := AList.update (group_id_counter st)
               (accumulate U r (work_of U r) (data_of st (group_id_counter st))) (author_data st)\<rparr>"
proof (cases "name_to_group_id st (name_of U r)")
  case (Some g)
  then have k: "normalized_to_group_id st (key_of U r) = Some g"
    using assms(2) unfolding grouper_ok_def key_of_def by blast
  have same: "(name_to_group_id st)(name_of U r \<mapsto> g) = name_to_group_id st"
    using Some by (simp add: fun_upd_idem)
  show ?thesis
    by (rule known[OF k])
       (simp_all add: process_row_unfold assms(1) resolve_known[OF Some] same data_of_def)
next
  case None
  show ?thesis
  proof (cases "normalized_to_group_id st (key_of U r)")
    case (Some g)
    then have k: "normalized_to_group_id st (normalize_name U (name_of U r)) = Some g"
      by (simp add: key_of_def)
    show ?thesis
      by (rule known[OF Some])
         (simp_all add: process_row_unfold assms(1) resolve_group_key[OF None k] data_of_def)
  next
    case nk: None
    then have k: "normalized_to_group_id st (normalize_name U (name_of U r)) = None"
      by (simp add: key_of_def)
    show ?thesis
      by (rule new[OF nk])
         (simp_all add: process_row_unfold assms(1) resolve_group_new[OF None k] data_of_def key_of_def)
  qed
qed


lemma grouper_ok_init: "grouper_ok U init_state"
  by (simp add: grouper_ok_def init_state_def)

lemma grouper_okD:
  assumes "grouper_ok U st"
  shows "name_to_group_id st a = Some g \<Longrightarrow> normalized_to_group_id st (normalize_name U a) = Some g"
    and "normalized_to_group_id st k = Some g \<Longrightarrow> group_normalized_names st g = Some k"
    and "group_normalized_names st g = Some k \<Longrightarrow> g < group_id_counter st"
    and "group_normalized_names st g = Some k \<Longrightarrow> normalized_to_group_id st k = Some g"
    and "map fst (author_data st) = [0..<group_id_counter st]"
  using assms unfolding grouper_ok_def by blast+

lemma grouper_okI:
  assumes "\<And>a g. name_to_group_id st a = Some g \<Longrightarrow>
              normalized_to_group_id st (normalize_name U a) = Some g"
    and "\<And>k g. normalized_to_group_id st k = Some g \<Longrightarrow> group_normalized_names st g = Some k"
    and "\<And>g k. group_normalized_names st g = Some k \<Longrightarrow> g < group_id_counter st"
    and "\<And>g k. group_normalized_names st g = Some k \<Longrightarrow> normalized_to_group_id st k = Some g"
    and "map fst (author_data st) = [0..<group_id_counter st]"
  shows "grouper_ok U st"
  unfolding grouper_ok_def using assms by blast

lemma process_row_known_sel:
  assumes "process_row U st r =
         st\<lparr>name_to_group_id := (name_to_group_id st)(name_of U r \<mapsto> g),
            author_data := AList.update g (accumulate U r (work_of U r) (data_of st g)) (author_data st)\<rparr>"
  shows "name_to_group_id (process_row U st r) = (name_to_group_id st)(name_of U r \<mapsto> g)"
    and "normalized_to_group_id (process_row U st r) = normalized_to_group_id st"
    and "group_normalized_names (process_row U st r) = group_normalized_names st"
    and "group_id_counter (process_row U st r) = group_id_counter st"
    and "author_data (process_row U st r) =
           AList.update g (accumulate U r (work_of U r) (data_of st g)) (author_data st)"
  unfolding assms by simp_all

lemma process_row_new_sel:
  assumes "process_row U st r =
         st\<lparr>group_id_counter := group_id_counter st + 1,
            normalized_to_group_id := (normalized_to_group_id st)(key_of U r \<mapsto> group_id_counter st),
            group_normalized_names := (group_normalized_names st)(group_id_counter st \<mapsto> key_of U r),
            name_to_group_id := (name_to_group_id st)(name_of U r \<mapsto> group_id_counter st),
            author_data := AList.update (group_id_counter st)
               (accumulate U r (work_of U r) (data_of st (group_id_counter st))) (author_data st)\<rparr>"
  shows "name_to_group_id (process_row U st r) = (name_to_group_id st)(name_of U r \<mapsto> group_id_counter st)"
    and "normalized_to_group_id (process_row U st r) =
           (normalized_to_group_id st)(key_of U r \<mapsto> group_id_counter st)"
    and "group_normalized_names (process_row U st r) =
           (group_normalized_names st)(group_id_counter st \<mapsto> key_of U r)"
    and "group_id_counter (process_row U st r) = group_id_counter st + 1"
    and "author_data (process_row U st r) =
           AList.update (group_id_counter st)
               (accumulate U r (work_of U r) (data_of st (group_id_counter st))) (author_data st)"
  unfolding assms by simp_all

lemma grouper_ok_step:
  assumes "grouper_ok U st"
  shows "grouper_ok U (process_row U st r)"
proof (cases "processed U r")
  case False
  with assms show ?thesis by (simp add: process_row_unfold)
next
  case True
  note d = grouper_okD[OF assms]
  from True assms show ?thesis
  proof (cases rule: process_row_cases)
    case (known g)
    note sel = process_row_known_sel[OF known(3)]
    have lt: "g < group_id_counter st"
      using d(3)[OF d(2)[OF known(1)]] .
    show ?thesis
    proof (rule grouper_okI)
      fix a g'
      assume a: "name_to_group_id (process_row U st r) a = Some g'"
      show "normalized_to_group_id (process_row U st r) (normalize_name U a) = Some g'"
      proof (cases "a = name_of U r")
        case True
        with a known(1) show ?thesis by (simp add: sel key_of_def)
      next
        case False
        with a have "name_to_group_id st a = Some g'" by (simp add: sel)
        from d(1)[OF this] show ?thesis by (simp add: sel)
      qed
    next
      fix k g'
      assume "normalized_to_group_id (process_row U st r) k = Some g'"
      then show "group_normalized_names (process_row U st r) g' = Some k"
        using d(2) by (simp add: sel)
    next
      fix g' k
      assume n: "group_normalized_names (process_row U st r) g' = Some k"
      then show "g' < group_id_counter (process_row U st r)"
        using d(3) by (simp add: sel)
      from n show "normalized_to_group_id (process_row U st r) k = Some g'"
        using d(4) by (simp add: sel)
    next
      show "map fst (author_data (process_row U st r)) = [0..<group_id_counter (process_row U st r)]"
        using lt by (simp add: sel update_keys d(5))
    qed
  next
    case new
    note sel = process_row_new_sel[OF new(3)]
    let ?c = "group_id_counter st"
    let ?k = "key_of U r"
    have nc: "group_normalized_names st ?c = None"
    proof (cases "group_normalized_names st ?c")
      case (Some k)
      from d(3)[OF Some] show ?thesis by simp
    qed simp
    show ?thesis
    proof (rule grouper_okI)
      fix a g'
      assume a: "name_to_group_id (process_row U st r) a = Some g'"
      show "normalized_to_group_id (process_row U st r) (normalize_name U a) = Some g'"
      proof (cases "a = name_of U r")
        case True
        with a show ?thesis by (simp add: sel key_of_def)
      next
        case False
        with a have "name_to_group_id st a = Some g'" by (simp add: sel)
        from d(1)[OF this] have n: "normalized_to_group_id st (normalize_name U a) = Some g'" .
        with new(1) have "normalize_name U a \<noteq> ?k" by auto
        with n show ?thesis by (simp add: sel)
      qed
    next
      fix k g'
      assume a: "normalized_to_group_id (process_row U st r) k = Some g'"
      show "group_normalized_names (process_row U st r) g' = Some k"
      proof (cases "k = ?k")
        case True
        with a show ?thesis by (simp add: sel)
      next
        case False
        with a have "normalized_to_group_id st k = Some g'" by (simp add: sel)
        from d(2)[OF this] have n: "group_normalized_names st g' = Some k" .
        with nc have "g' \<noteq> ?c" by auto
        with n show ?thesis by (simp add: sel)
      qed
    next
      fix g' k
      assume a: "group_normalized_names (process_row U st r) g' = Some k"
      show "g' < group_id_counter (process_row U st r)"
      proof (cases "g' = ?c")
        case True
        then show ?thesis by (simp add: sel)
      next
        case False
        with a have "group_normalized_names st g' = Some k" by (simp add: sel)
        from d(3)[OF this] show ?thesis by (simp add: sel)
      qed
      show "normalized_to_group_id (process_row U st r) k = Some g'"
      proof (cases "g' = ?c")
        case True
        with a show ?thesis by (simp add: sel)
      next
        case False
        with a have n: "group_normalized_names st g' = Some k" by (simp add: sel)
        from d(4)[OF n] new(1) have "k \<noteq> ?k" by auto
        with d(4)[OF n] show ?thesis by (simp add: sel)
      qed
    next
      show "map fst (author_data (process_row U st r)) = [0..<group_id_counter (process_row U st r)]"
        by (simp add: sel update_keys d(5))
    qed
  qed
qed

lemma grouper_ok_foldl: "grouper_ok U st \<Longrightarrow> grouper_ok U (foldl (process_row U) st rows)"
  by (induction rows arbitrary: st) (simp_all add: grouper_ok_step)

lemma grouper_ok_run: "grouper_ok U (run_rows U rows)"
  unfolding run_rows_def by (rule grouper_ok_foldl[OF grouper_ok_init])



lemma step_keeps_key:
  assumes "grouper_ok U st" and "normalized_to_group_id st k = Some g"
  shows "normalized_to_group_id (process_row U st r) k = Some g"
proof (cases "processed U r")
  case False
  with assms show ?thesis by (simp add: process_row_unfold)
next
  case True
  from True assms(1) show ?thesis
  proof (cases rule: process_row_cases)
    case (known g')
    with assms(2) show ?thesis by (simp add: process_row_known_sel[OF known(3)])
  next
    case new
    with assms(2) have "k \<noteq> key_of U r" by auto
    with assms(2) show ?thesis by (simp add: process_row_new_sel[OF new(3)])
  qed
qed

lemma foldl_keeps_key:
  assumes "grouper_ok U st" and "normalized_to_group_id st k = Some g"
  shows "normalized_to_group_id (foldl (process_row U) st rows) k = Some g"
  using assms
  by (induction rows arbitrary: st) (simp_all add: grouper_ok_step step_keeps_key)

lemma step_sets_key:
  assumes "grouper_ok U st" and "processed U r"
  shows "normalized_to_group_id (process_row U st r) (key_of U r)
           = Some (fst (resolve_group U st (name_of U r)))"
  using assms(2,1)
proof (cases rule: process_row_cases)
  case (known g)
  then show ?thesis by (simp add: process_row_known_sel[OF known(3)])
next
  case new
  then show ?thesis by (simp add: process_row_new_sel[OF new(3)])
qed

lemma step_dom:
  assumes "grouper_ok U st"
  shows "dom (normalized_to_group_id (process_row U st r)) =
           (if processed U r then insert (key_of U r) (dom (normalized_to_group_id st))
            else dom (normalized_to_group_id st))"
proof (cases "processed U r")
  case False
  then show ?thesis by (simp add: process_row_unfold)
next
  case True
  from True assms show ?thesis
  proof (cases rule: process_row_cases)
    case (known g)
    then have "key_of U r \<in> dom (normalized_to_group_id st)" by auto
    with True show ?thesis by (simp add: process_row_known_sel[OF known(3)] insert_absorb)
  next
    case new
    with True show ?thesis by (simp add: process_row_new_sel[OF new(3)])
  qed
qed

lemma step_counter:
  assumes "grouper_ok U st"
  shows "group_id_counter (process_row U st r) =
           (if processed U r \<and> key_of U r \<notin> dom (normalized_to_group_id st)
            then group_id_counter st + 1 else group_id_counter st)"
proof (cases "processed U r")
  case False
  then show ?thesis by (simp add: process_row_unfold)
next
  case True
  from True assms show ?thesis
  proof (cases rule: process_row_cases)
    case (known g)
    then have "key_of U r \<in> dom (normalized_to_group_id st)" by auto
    then show ?thesis by (simp add: process_row_known_sel[OF known(3)])
  next
    case new
    then have "key_of U r \<notin> dom (normalized_to_group_id st)" by auto
    with True show ?thesis by (simp add: process_row_new_sel[OF new(3)])
  qed
qed

lemma run_dom:
  "dom (normalized_to_group_id (run_rows U rows)) = key_of U ` {r \<in> set rows. processed U r}"
proof (induction rows rule: rev_induct)
  case Nil
  then show ?case by (simp add: run_rows_def init_state_def)
next
  case (snoc r rows)
  have "dom (normalized_to_group_id (run_rows U (rows @ [r]))) =
        (if processed U r then insert (key_of U r) (dom (normalized_to_group_id (run_rows U rows)))
         else dom (normalized_to_group_id (run_rows U rows)))"
    by (simp add: run_rows_snoc step_dom[OF grouper_ok_run])
  with snoc show ?case by auto
qed

lemma run_counter:
  "group_id_counter (run_rows U rows) = card (key_of U ` {r \<in> set rows. processed U r})"
proof (induction rows rule: rev_induct)
  case Nil
  then show ?case by (simp add: run_rows_def init_state_def)
next
  case (snoc r rows)
  let ?K = "key_of U ` {x \<in> set rows. processed U x}"
  have fin: "finite ?K" by simp
  have eq: "key_of U ` {x \<in> set (rows @ [r]). processed U x} =
        (if processed U r then insert (key_of U r) ?K else ?K)"
    by auto
  have "group_id_counter (run_rows U (rows @ [r])) =
        (if processed U r \<and> key_of U r \<notin> ?K then card ?K + 1 else card ?K)"
    by (simp add: run_rows_snoc step_counter[OF grouper_ok_run] run_dom snoc)
  also have "\<dots> = card (if processed U r then insert (key_of U r) ?K else ?K)"
    using fin by (simp add: insert_absorb)
  finally show ?case unfolding eq .
qed



lemma run_rows_take_Suc:
  assumes "i < length rows"
  shows "run_rows U (take (Suc i) rows) = process_row U (run_rows U (take i rows)) (rows ! i)"
  using assms by (simp add: take_Suc_conv_app_nth run_rows_snoc)

lemma run_rows_split:
  assumes "n \<le> length rows"
  shows "run_rows U rows = foldl (process_row U) (run_rows U (take n rows)) (drop n rows)"
proof -
  have "run_rows U (take n rows @ drop n rows) =
        foldl (process_row U) (run_rows U (take n rows)) (drop n rows)"
    unfolding run_rows_def by (simp only: foldl_append)
  then show ?thesis by simp
qed

text \<open>The id resolved for a processed row is the id of its key in the final state.\<close>

lemma group_id_at_final:
  assumes "i < length rows" and "processed U (rows ! i)"
  shows "normalized_to_group_id (run_rows U rows) (key_of U (rows ! i)) = Some (group_id_at U rows i)"
proof -
  let ?st = "run_rows U (take i rows)"
  have "normalized_to_group_id (run_rows U (take (Suc i) rows)) (key_of U (rows ! i))
          = Some (group_id_at U rows i)"
    unfolding run_rows_take_Suc[OF assms(1)] group_id_at_def
    by (rule step_sets_key[OF grouper_ok_run assms(2)])
  moreover have "run_rows U rows =
      foldl (process_row U) (run_rows U (take (Suc i) rows)) (drop (Suc i) rows)"
    using assms(1) by (intro run_rows_split) simp
  ultimately show ?thesis
    by (simp add: foldl_keeps_key[OF grouper_ok_run])
qed

lemma new_key_takes_counter:
  assumes "i < length rows" and "processed U (rows ! i)"
    and "\<forall>j < i. processed U (rows ! j) \<longrightarrow> key_of U (rows ! j) \<noteq> key_of U (rows ! i)"
  shows "group_id_at U rows i = group_id_counter (run_rows U (take i rows))"
    and "group_id_counter (run_rows U (take (Suc i) rows)) = group_id_at U rows i + 1"
proof -
  let ?st = "run_rows U (take i rows)"
  have "key_of U (rows ! i) \<notin> key_of U ` {r \<in> set (take i rows). processed U r}"
  proof
    assume "key_of U (rows ! i) \<in> key_of U ` {r \<in> set (take i rows). processed U r}"
    then obtain r where r: "r \<in> set (take i rows)" "processed U r" "key_of U r = key_of U (rows ! i)"
      by auto
    from r(1) obtain j where "j < length (take i rows)" "take i rows ! j = r"
      by (auto simp: in_set_conv_nth)
    then have "j < i" "rows ! j = r" by simp_all
    with assms(3) r(2,3) show False by auto
  qed
  then have none: "normalized_to_group_id ?st (key_of U (rows ! i)) = None"
    using run_dom[of U "take i rows"] by blast
  from assms(2) grouper_ok_run[of U "take i rows"]
  show "group_id_at U rows i = group_id_counter ?st"
  proof (cases rule: process_row_cases)
    case (known g)
    with none show ?thesis by simp
  next
    case new
    then show ?thesis by (simp add: group_id_at_def)
  qed
  from assms(2) grouper_ok_run[of U "take i rows"]
  show "group_id_counter (run_rows U (take (Suc i) rows)) = group_id_at U rows i + 1"
  proof (cases rule: process_row_cases)
    case (known g)
    with none show ?thesis by simp
  next
    case new
    then show ?thesis
      by (simp add: group_id_at_def run_rows_take_Suc[OF assms(1)] process_row_new_sel[OF new(3)])
  qed
qed


lemma summary_row_name:
  "group_normalized_names st g = Some k \<Longrightarrow> s_author_name (summary_row U st (g, d)) = title_case U k"
  by (simp add: summary_row_def Let_def)

lemma set_aggregate:
  "set (aggregate_authors U rows) = summary_row U (run_rows U rows) ` set (author_data (run_rows U rows))"
  by (simp add: aggregate_authors_def output_rows_def Let_def)

text \<open>
  Claim C4: in one run of the aggregator over \<open>rows\<close>, let the row at index \<open>i\<close> be
  processed (its stripped name and work id are not empty). Then
  \<^item> the group id resolved for it is the id under which its canonical key stands in the
    final state, and another processed row resolves to the same id exactly when it has
    the same canonical key: the same key always gives the same id, and no id is used
    for two keys;
  \<^item> ids come from a counter that starts at 0 and moves by one: a key not seen before
    takes the current value of the counter and advances it by 1, and the counter of the
    run is the number of distinct keys;
  \<^item> the normalized name recorded for the group is that canonical key, and the output has
    a row for the group whose \<open>author_name\<close> is its title-cased form.
\<close>

theorem group_ids_are_stable:
  assumes "i < length rows" and "processed U (rows ! i)"
  shows "normalized_to_group_id (run_rows U rows) (key_of U (rows ! i)) = Some (group_id_at U rows i) \<and>
    (\<forall>j < length rows. processed U (rows ! j) \<longrightarrow>
       (group_id_at U rows j = group_id_at U rows i \<longleftrightarrow> key_of U (rows ! j) = key_of U (rows ! i))) \<and>
    ((\<forall>j < i. processed U (rows ! j) \<longrightarrow> key_of U (rows ! j) \<noteq> key_of U (rows ! i)) \<longrightarrow>
       group_id_at U rows i = group_id_counter (run_rows U (take i rows)) \<and>
       group_id_counter (run_rows U (take (Suc i) rows)) = group_id_at U rows i + 1) \<and>
    group_id_counter (run_rows U []) = 0 \<and>
    group_id_counter (run_rows U rows) = card (key_of U ` {r \<in> set rows. processed U r}) \<and>
    group_id_at U rows i < group_id_counter (run_rows U rows) \<and>
    group_normalized_names (run_rows U rows) (group_id_at U rows i) = Some (key_of U (rows ! i)) \<and>
    (\<exists>d. (group_id_at U rows i, d) \<in> set (author_data (run_rows U rows)) \<and>
         s_author_name (summary_row U (run_rows U rows) (group_id_at U rows i, d))
           = title_case U (key_of U (rows ! i))) \<and>
    title_case U (key_of U (rows ! i)) \<in> s_author_name ` set (aggregate_authors U rows)"
proof -
  let ?st = "run_rows U rows"
  let ?g = "group_id_at U rows i"
  let ?k = "key_of U (rows ! i)"
  note d = grouper_okD[OF grouper_ok_run[of U rows]]
  have a: "normalized_to_group_id ?st ?k = Some ?g"
    by (rule group_id_at_final[OF assms])
  have name: "group_normalized_names ?st ?g = Some ?k"
    by (rule d(2)[OF a])
  have lt: "?g < group_id_counter ?st"
    by (rule d(3)[OF name])
  have b: "\<forall>j < length rows. processed U (rows ! j) \<longrightarrow>
       (group_id_at U rows j = ?g \<longleftrightarrow> key_of U (rows ! j) = ?k)"
  proof (intro allI impI)
    fix j assume j: "j < length rows" "processed U (rows ! j)"
    have aj: "normalized_to_group_id ?st (key_of U (rows ! j)) = Some (group_id_at U rows j)"
      by (rule group_id_at_final[OF j])
    show "group_id_at U rows j = ?g \<longleftrightarrow> key_of U (rows ! j) = ?k"
    proof
      assume "group_id_at U rows j = ?g"
      with d(2)[OF aj] name show "key_of U (rows ! j) = ?k" by simp
    next
      assume "key_of U (rows ! j) = ?k"
      with aj a show "group_id_at U rows j = ?g" by simp
    qed
  qed
  have c: "(\<forall>j < i. processed U (rows ! j) \<longrightarrow> key_of U (rows ! j) \<noteq> ?k) \<longrightarrow>
       ?g = group_id_counter (run_rows U (take i rows)) \<and>
       group_id_counter (run_rows U (take (Suc i) rows)) = ?g + 1"
    using new_key_takes_counter[OF assms] by blast
  have z: "group_id_counter (run_rows U []) = 0"
    by (simp add: run_rows_def init_state_def)
  have "?g \<in> set (map fst (author_data ?st))"
    using lt by (simp add: d(5))
  then obtain dd where dd: "(?g, dd) \<in> set (author_data ?st)"
    by auto
  have nm: "s_author_name (summary_row U ?st (?g, dd)) = title_case U ?k"
    by (rule summary_row_name[OF name])
  have e: "\<exists>d. (?g, d) \<in> set (author_data ?st) \<and>
         s_author_name (summary_row U ?st (?g, d)) = title_case U ?k"
    using dd nm by blast
  have "summary_row U ?st (?g, dd) \<in> set (aggregate_authors U rows)"
    using dd by (simp add: set_aggregate)
  then have out: "title_case U ?k \<in> s_author_name ` set (aggregate_authors U rows)"
    using nm by (metis imageI)
  from a b c z run_counter[of U rows] lt name e out show ?thesis
    by (intro conjI)
qed

theorem group_ids_are_stable_witness:
  "normalized_to_group_id (run_rows ucd smith_rows) (ustr ''j smith'') = Some 0 \<and>
   group_id_at ucd smith_rows 0 = 0 \<and> group_id_at ucd smith_rows 1 = 1 \<and>
   group_id_at ucd smith_rows 2 = 0 \<and>
   key_of ucd (smith_rows ! 0) = ustr ''j smith'' \<and> key_of ucd (smith_rows ! 2) = ustr ''j smith'' \<and>
   map s_author_name (aggregate_authors ucd smith_rows) = [ustr ''J Smith'', ustr ''Ann''] \<and>
   map works_count (aggregate_authors ucd smith_rows) = [2, 1]"
proof -
  have len: "2 < length smith_rows"
    by (simp add: smith_rows_def)
  have p: "processed ucd (smith_rows ! 2)"
    by code_simp
  have ids: "group_id_at ucd smith_rows 0 = 0 \<and> group_id_at ucd smith_rows 1 = 1 \<and>
             group_id_at ucd smith_rows 2 = 0"
    by code_simp
  have keys: "key_of ucd (smith_rows ! 0) = ustr ''j smith'' \<and>
              key_of ucd (smith_rows ! 2) = ustr ''j smith''"
    by code_simp
  have out: "map s_author_name (aggregate_authors ucd smith_rows) = [ustr ''J Smith'', ustr ''Ann''] \<and>
             map works_count (aggregate_authors ucd smith_rows) = [2, 1]"
    by code_simp
  from group_ids_are_stable[OF len p]
  have "normalized_to_group_id (run_rows ucd smith_rows) (key_of ucd (smith_rows ! 2))
          = Some (group_id_at ucd smith_rows 2)"
    by (rule conjunct1)
  with ids keys out show ?thesis by simp
qed

subsection \<open>Citation counts\<close>

lemma first_cited_Nil: "first_cited U [] = (\<lambda>w. None)"
  by (simp add: first_cited_def cited_rows_def fun_eq_iff)

lemma first_cited_None_iff:
  "first_cited U rs w = None \<longleftrightarrow> filter (\<lambda>r. work_of U r = w) (cited_rows U rs) = []"
proof (cases "filter (\<lambda>r. work_of U r = w) (cited_rows U rs)")
  case Nil
  then show ?thesis by (simp add: first_cited_def)
next
  case (Cons x xs)
  then have "x \<in> set (filter (\<lambda>r. work_of U r = w) (cited_rows U rs))" by simp
  then have "cited_by_of U x \<noteq> None" by (simp add: cited_rows_def)
  with Cons show ?thesis by (simp add: first_cited_def)
qed

lemma first_cited_snoc:
  "first_cited U (rs @ [r]) w =
     (case first_cited U rs w of
        Some v \<Rightarrow> Some v
      | None \<Rightarrow> if work_of U r = w then cited_by_of U r else None)"
proof (cases "filter (\<lambda>r. work_of U r = w) (cited_rows U rs)")
  case Nil
  then have n: "first_cited U rs w = None" by (simp add: first_cited_def)
  show ?thesis
    unfolding n using Nil
    by (cases "cited_by_of U r") (simp_all add: first_cited_def cited_rows_def)
next
  case (Cons x xs)
  then have "first_cited U rs w \<noteq> None" by (simp add: first_cited_None_iff)
  then obtain v where v: "first_cited U rs w = Some v" by auto
  have "first_cited U (rs @ [r]) w = cited_by_of U x"
    using Cons by (simp add: first_cited_def cited_rows_def)
  moreover have "first_cited U rs w = cited_by_of U x"
    using Cons by (simp add: first_cited_def)
  ultimately have e: "first_cited U (rs @ [r]) w = Some v" using v by simp
  show ?thesis unfolding e v by simp
qed

lemma dom_first_cited: "dom (first_cited U rs) = work_of U ` set (cited_rows U rs)"
proof -
  have "first_cited U rs w \<noteq> None \<longleftrightarrow> w \<in> work_of U ` set (cited_rows U rs)" for w
    unfolding first_cited_None_iff by (auto simp: filter_empty_conv)
  then show ?thesis by (auto simp: dom_def)
qed

lemma sum_list_map_of:
  assumes "distinct (map fst cb)"
  shows "sum_list (map snd cb) = (\<Sum>w \<in> dom (map_of cb). the (map_of cb w))"
  using assms
proof (induction cb)
  case Nil
  then show ?case by simp
next
  case (Cons p cb)
  obtain w v where p: "p = (w, v)" by (cases p)
  from Cons.prems have notin: "w \<notin> fst ` set cb" and dist: "distinct (map fst cb)"
    by (simp_all add: p)
  have wd: "w \<notin> dom (map_of cb)" using notin by (simp add: dom_map_of_conv_image_fst)
  have fin: "finite (dom (map_of cb))" by (rule finite_dom_map_of)
  have "(\<Sum>x \<in> dom (map_of (p # cb)). the (map_of (p # cb) x)) =
        (\<Sum>x \<in> insert w (dom (map_of cb)). the (if x = w then Some v else map_of cb x))"
    by (simp add: p)
  also have "\<dots> = v + (\<Sum>x \<in> dom (map_of cb). the (if x = w then Some v else map_of cb x))"
    using fin wd by simp
  also have "(\<Sum>x \<in> dom (map_of cb). the (if x = w then Some v else map_of cb x)) =
             (\<Sum>x \<in> dom (map_of cb). the (map_of cb x))"
    using wd by (intro sum.cong) auto
  finally show ?case using Cons.IH[OF dist] by (simp add: p)
qed

lemma data_for_total:
  assumes "data_for U rs d"
  shows "sum_list (map snd (cited_by_per_work d)) = citation_total U rs"
proof -
  from assms have dist: "distinct (map fst (cited_by_per_work d))"
    and m: "map_of (cited_by_per_work d) = first_cited U rs"
    by (simp_all add: data_for_def)
  show ?thesis
    unfolding sum_list_map_of[OF dist] m dom_first_cited citation_total_def ..
qed

lemma data_for_new: "data_for U [] new_group"
  by (simp add: data_for_def new_group_def first_cited_Nil)

lemma data_for_accumulate:
  assumes "data_for U rs d"
  shows "data_for U (rs @ [r]) (accumulate U r (work_of U r) d)"
proof -
  let ?w = "work_of U r"
  let ?cb = "cited_by_per_work d"
  from assms have wk: "work_ids d = work_of U ` set rs"
    and dist: "distinct (map fst ?cb)"
    and m: "map_of ?cb = first_cited U rs"
    by (simp_all add: data_for_def)
  have in_iff: "?w \<in> fst ` set ?cb \<longleftrightarrow> map_of ?cb ?w \<noteq> None"
    by (simp add: map_of_eq_None_iff)
  have 1: "work_ids (accumulate U r ?w d) = work_of U ` set (rs @ [r])"
    by (simp add: accumulate_sel wk)
  have 2: "distinct (map fst (cited_by_per_work (accumulate U r ?w d)))"
    using dist by (cases "cited_by_of U r") (simp_all add: accumulate_sel)
  have 3: "map_of (cited_by_per_work (accumulate U r ?w d)) w = first_cited U (rs @ [r]) w" for w
  proof (cases "cited_by_of U r")
    case None
    then show ?thesis
      by (cases "first_cited U rs w") (simp_all add: accumulate_sel first_cited_snoc m)
  next
    case (Some v)
    show ?thesis
    proof (cases "?w \<in> fst ` set ?cb")
      case True
      then obtain v0 where v0: "first_cited U rs ?w = Some v0"
        using in_iff m by auto
      show ?thesis
        using True Some v0
        by (cases "first_cited U rs w") (auto simp: accumulate_sel first_cited_snoc m)
    next
      case False
      then have n: "first_cited U rs ?w = None" using in_iff m by simp
      have "map_of (?cb @ [(?w, v)]) w =
            (case map_of ?cb w of Some x \<Rightarrow> Some x | None \<Rightarrow> if ?w = w then Some v else None)"
        by (simp add: map_add_def split: option.splits)
      with False Some show ?thesis
        by (cases "first_cited U rs w") (simp_all add: accumulate_sel first_cited_snoc m)
    qed
  qed
  from 1 2 3 show ?thesis unfolding data_for_def by blast
qed



lemma group_rows_snoc:
  "group_rows U k (rows @ [r]) =
     (if processed U r \<and> key_of U r = k then group_rows U k rows @ [r] else group_rows U k rows)"
  by (simp add: group_rows_def)

lemma group_rows_unseen:
  assumes "normalized_to_group_id (run_rows U rows) k = None"
  shows "group_rows U k rows = []"
proof -
  have "k \<notin> key_of U ` {r \<in> set rows. processed U r}"
    using assms run_dom[of U rows] by blast
  then show ?thesis by (auto simp: group_rows_def filter_empty_conv)
qed

lemma data_okD:
  assumes "data_ok U rows st" and "map_of (author_data st) g = Some d"
  obtains k where "group_normalized_names st g = Some k" "data_for U (group_rows U k rows) d"
  using assms unfolding data_ok_def by blast

lemma data_ok_step:
  assumes ok: "data_ok U rows (run_rows U rows)"
  shows "data_ok U (rows @ [r]) (process_row U (run_rows U rows) r)"
proof (cases "processed U r")
  case False
  then show ?thesis using ok by (simp add: process_row_unfold data_ok_def group_rows_snoc)
next
  case True
  let ?st = "run_rows U rows"
  let ?st' = "process_row U ?st r"
  let ?kr = "key_of U r"
  let ?w = "work_of U r"
  note d = grouper_okD[OF grouper_ok_run[of U rows]]
  from True grouper_ok_run[of U rows] show ?thesis
  proof (cases rule: process_row_cases)
    case (known g)
    note sel = process_row_known_sel[OF known(3)]
    have nk: "group_normalized_names ?st g = Some ?kr" by (rule d(2)[OF known(1)])
    have "g < group_id_counter ?st" by (rule d(3)[OF nk])
    then have "g \<in> set (map fst (author_data ?st))" by (simp add: d(5))
    then obtain d0 where d0: "map_of (author_data ?st) g = Some d0"
      by (metis image_set map_of_eq_None_iff not_Some_eq)
    from data_okD[OF ok d0] nk have f0: "data_for U (group_rows U ?kr rows) d0" by auto
    have dof: "data_of ?st g = d0" using d0 by (simp add: data_of_def)
    show ?thesis
      unfolding data_ok_def
    proof (intro allI impI)
      fix g' d' assume a: "map_of (author_data ?st') g' = Some d'"
      show "\<exists>k. group_normalized_names ?st' g' = Some k \<and> data_for U (group_rows U k (rows @ [r])) d'"
      proof (cases "g' = g")
        case same: True
        with a have d': "d' = accumulate U r ?w d0" by (simp add: sel update_conv' dof)
        have "data_for U (group_rows U ?kr rows @ [r]) d'"
          unfolding d' by (rule data_for_accumulate[OF f0])
        then have "data_for U (group_rows U ?kr (rows @ [r])) d'"
          using True by (simp add: group_rows_snoc)
        with nk same show ?thesis by (auto simp: sel)
      next
        case False
        with a have m: "map_of (author_data ?st) g' = Some d'" by (simp add: sel update_conv')
        from data_okD[OF ok m] obtain k where
          k: "group_normalized_names ?st g' = Some k" "data_for U (group_rows U k rows) d'"
          by blast
        have "k \<noteq> ?kr"
        proof
          assume "k = ?kr"
          with d(4)[OF k(1)] known(1) False show False by simp
        qed
        then have "group_rows U k (rows @ [r]) = group_rows U k rows"
          by (auto simp: group_rows_snoc)
        with k show ?thesis by (auto simp: sel)
      qed
    qed
  next
    case new
    note sel = process_row_new_sel[OF new(3)]
    let ?c = "group_id_counter ?st"
    have "?c \<notin> set (map fst (author_data ?st))" by (simp add: d(5))
    then have none: "map_of (author_data ?st) ?c = None"
      by (simp add: map_of_eq_None_iff)
    then have dof: "data_of ?st ?c = new_group" by (simp add: data_of_def)
    have empty: "group_rows U ?kr rows = []" by (rule group_rows_unseen[OF new(1)])
    show ?thesis
      unfolding data_ok_def
    proof (intro allI impI)
      fix g' d' assume a: "map_of (author_data ?st') g' = Some d'"
      show "\<exists>k. group_normalized_names ?st' g' = Some k \<and> data_for U (group_rows U k (rows @ [r])) d'"
      proof (cases "g' = ?c")
        case same: True
        with a have d': "d' = accumulate U r ?w new_group" by (simp add: sel update_conv' dof)
        have "data_for U ([] @ [r]) d'"
          unfolding d' by (rule data_for_accumulate[OF data_for_new])
        then have "data_for U (group_rows U ?kr (rows @ [r])) d'"
          using True empty by (simp add: group_rows_snoc)
        with same show ?thesis by (auto simp: sel)
      next
        case False
        with a have m: "map_of (author_data ?st) g' = Some d'" by (simp add: sel update_conv')
        from data_okD[OF ok m] obtain k where
          k: "group_normalized_names ?st g' = Some k" "data_for U (group_rows U k rows) d'"
          by blast
        have "k \<noteq> ?kr"
        proof
          assume "k = ?kr"
          with d(4)[OF k(1)] new(1) show False by simp
        qed
        then have "group_rows U k (rows @ [r]) = group_rows U k rows"
          by (auto simp: group_rows_snoc)
        with k False show ?thesis by (auto simp: sel)
      qed
    qed
  qed
qed

lemma data_ok_run: "data_ok U rows (run_rows U rows)"
proof (induction rows rule: rev_induct)
  case Nil
  then show ?case by (simp add: data_ok_def run_rows_def init_state_def)
next
  case (snoc r rows)
  then show ?case unfolding run_rows_snoc by (rule data_ok_step)
qed

lemma summary_row_counts:
  "cited_by_count (summary_row U st (g, d)) = sum_list (map snd (cited_by_per_work d))"
  "works_count (summary_row U st (g, d)) = card (work_ids d)"
  by (simp_all add: summary_row_def Let_def)


text \<open>
  Claim C3, as stated, fails: the value counted for a work id need not be that of the
  first row seen for it. In \<open>late_count_rows\<close> the first row of the work has an empty
  \<open>cited_by_count\<close> cell, for which \<open>int\<close> raises \<open>ValueError\<close>; the second row has 5, and
  the output counts 5.
\<close>

theorem citation_value_of_a_later_row:
  "map cited_by_count (aggregate_authors ucd late_count_rows) = [5] \<and>
   map (cited_by_of ucd) late_count_rows = [None, Some 5] \<and>
   first_row_value ucd late_count_rows (ustr ''W1'') = None"
  by code_simp

text \<open>
  Claim C3, amended: every output row is the row of one author group; the work ids of
  the group are the work ids of the input rows filed under the canonical key of the
  group, and the \<open>cited_by_count\<close> of the row is the sum of exactly one citation value per
  distinct work id of those rows that has a row with an integer \<open>cited_by_count\<close>: the value
  of the first such row, however often the work id recurs. A work id without such a row
  adds nothing.
\<close>

theorem citations_sum_first_integer_values:
  assumes "row \<in> set (aggregate_authors U rows)"
  shows "\<exists>g d k. (g, d) \<in> set (author_data (run_rows U rows)) \<and>
           row = summary_row U (run_rows U rows) (g, d) \<and>
           group_normalized_names (run_rows U rows) g = Some k \<and>
           work_ids d = work_of U ` set (group_rows U k rows) \<and>
           cited_by_count row = citation_total U (group_rows U k rows)"
proof -
  let ?st = "run_rows U rows"
  from assms obtain g d where gd: "(g, d) \<in> set (author_data ?st)"
    and row: "row = summary_row U ?st (g, d)"
    by (auto simp: set_aggregate)
  have "distinct (map fst (author_data ?st))"
    by (simp add: grouper_okD(5)[OF grouper_ok_run])
  then have m: "map_of (author_data ?st) g = Some d"
    using gd by (rule map_of_is_SomeI)
  from data_okD[OF data_ok_run m] obtain k where
    k: "group_normalized_names ?st g = Some k" "data_for U (group_rows U k rows) d"
    by blast
  have "cited_by_count row = citation_total U (group_rows U k rows)"
    unfolding row summary_row_counts by (rule data_for_total[OF k(2)])
  moreover have "work_ids d = work_of U ` set (group_rows U k rows)"
    using k(2) by (simp add: data_for_def)
  ultimately show ?thesis using gd row k(1) by blast
qed

theorem citations_sum_first_integer_values_witness:
  "map cited_by_count (aggregate_authors ucd late_count_rows) = [5] \<and>
   citation_total ucd (group_rows ucd (ustr ''ann'') late_count_rows) = 5 \<and>
   map cited_by_count (aggregate_authors ucd smith_rows) = [7, 3] \<and>
   citation_total ucd (group_rows ucd (ustr ''j smith'') smith_rows) = 7"
proof -
  have agg: "aggregate_authors ucd late_count_rows =
      [\<lparr>s_author_name = ustr ''Ann'', s_author_ids = [], works_count = 1,
        specific_works_count = 0, journals_count = 0, cited_by_count = 5, min_year = None,
        max_year = None, s_institutions = [], s_countries = [], s_affiliations_comment = []\<rparr>]"
    by code_simp
  have h: "hd (aggregate_authors ucd late_count_rows) \<in> set (aggregate_authors ucd late_count_rows)"
    by (simp add: agg)
  have tot: "citation_total ucd (group_rows ucd (ustr ''ann'') late_count_rows) = 5 \<and>
             citation_total ucd (group_rows ucd (ustr ''j smith'') smith_rows) = 7"
    by code_simp
  have sm: "map cited_by_count (aggregate_authors ucd smith_rows) = [7, 3]"
    by code_simp
  from citations_sum_first_integer_values[OF h] agg tot sm
  show ?thesis by simp
qed

section \<open>Properties of normalize\_name\<close>

subsection \<open>Decomposition and marks\<close>

lemma lib_okD:
  assumes "lib_ok U"
  shows "isspace U 32" "combining U 32 = 0" "decomposition U 32 = [32]" "tolower U 32 = [32]"
    "\<not> cased U 32" "\<not> case_ignorable U 32"
    "\<not> isalnum U 45" "combining U 45 = 0" "decomposition U 45 = [45]"
    "\<And>c. is_word U c \<Longrightarrow> \<not> isspace U c"
    "\<And>c d. d \<in> set (decomposition U c) \<Longrightarrow> decomposition U d = [d]"
    "\<And>c d. isspace U c \<Longrightarrow> d \<in> set (decomposition U c) \<Longrightarrow> isspace U d"
    "\<And>c. kept U c \<Longrightarrow> c \<noteq> 0x3A3 \<Longrightarrow> tolower U c \<noteq> []"
    "\<And>c d. kept U c \<Longrightarrow> c \<noteq> 0x3A3 \<Longrightarrow> d \<in> set (tolower U c) \<Longrightarrow> settled U d"
    "settled U 0x3C2" "settled U 0x3C3"
  using assms unfolding lib_ok_def by blast+

lemma normalize_name_cleaned: "normalize_name U n = py_strip U (py_lower U (cleaned U n))"
  by (cases "n = []")
     (simp_all add: normalize_name_def cleaned_def Let_def nfkd_def py_lower_def py_strip_def)

lemma filter_canonical_order:
  assumes "\<forall>m \<in> set marks. combining U m \<noteq> 0"
  shows "filter (\<lambda>c. combining U c = 0) (canonical_order U marks s) = filter (\<lambda>c. combining U c = 0) s"
  using assms
proof (induction s arbitrary: marks)
  case Nil
  then show ?case by (simp add: filter_sort filter_empty_conv)
next
  case (Cons c cs)
  show ?case
  proof (cases "combining U c = 0")
    case True
    have "filter (\<lambda>c. combining U c = 0) (sort_key (combining U) marks) = []"
      using Cons.prems by (simp add: filter_empty_conv)
    with True Cons.IH[of "[]"] show ?thesis by simp
  next
    case False
    with Cons.prems have "\<forall>m \<in> set (marks @ [c]). combining U m \<noteq> 0" by simp
    from Cons.IH[OF this] False show ?thesis by simp
  qed
qed

lemma set_canonical_order: "set (canonical_order U marks s) = set marks \<union> set s"
  by (induction s arbitrary: marks) auto

lemma unmarked_nfkd:
  "filter (\<lambda>c. combining U c = 0) (nfkd U n) =
   filter (\<lambda>c. combining U c = 0) (concat (map (decomposition U) n))"
  unfolding nfkd_def by (rule filter_canonical_order) simp

lemma canonical_order_unmarked:
  assumes "\<forall>c \<in> set s. combining U c = 0"
  shows "canonical_order U [] s = s"
  using assms by (induction s) simp_all



subsection \<open>Collapsing runs\<close>

lemma single_spaced_Cons:
  "single_spaced (a # s) \<longleftrightarrow> (s = [] \<or> (\<not> (a = 32 \<and> hd s = 32) \<and> single_spaced s))"
  by (cases s) auto

lemma single_spaced_tl: "single_spaced (a # s) \<Longrightarrow> single_spaced s"
  by (cases s) auto

lemma single_spaced_dropWhile: "single_spaced s \<Longrightarrow> single_spaced (dropWhile P s)"
  by (induction s) (auto dest: single_spaced_tl)

lemma single_spaced_take: "single_spaced s \<Longrightarrow> single_spaced (take n s)"
proof (induction s arbitrary: n)
  case Nil
  then show ?case by simp
next
  case (Cons a s)
  show ?case
  proof (cases n)
    case 0
    then show ?thesis by simp
  next
    case (Suc m)
    have ih: "single_spaced (take m s)"
      using Cons.IH single_spaced_tl[OF Cons.prems] by blast
    have tk: "take n (a # s) = a # take m s" using Suc by simp
    show ?thesis
    proof (cases "take m s")
      case Nil
      show ?thesis unfolding tk Nil by simp
    next
      case (Cons b bs)
      have "s \<noteq> []"
      proof
        assume "s = []"
        with Cons show False by simp
      qed
      have "m \<noteq> 0"
      proof
        assume "m = 0"
        with Cons show False by simp
      qed
      from \<open>s \<noteq> []\<close> \<open>m \<noteq> 0\<close>
      have "hd (take m s) = hd s" by (simp add: hd_take)
      with Cons have b: "b = hd s" by simp
      from Cons.prems \<open>s \<noteq> []\<close> have "\<not> (a = 32 \<and> hd s = 32)"
        by (simp add: single_spaced_Cons)
      with ih b Cons show ?thesis unfolding tk by (simp add: single_spaced_Cons)
    qed
  qed
qed

lemma rev_dropWhile_rev: "rev (dropWhile P (rev s)) = take (length s - length (takeWhile P (rev s))) s"
proof -
  have "dropWhile P (rev s) = drop (length (takeWhile P (rev s))) (rev s)"
    by (rule dropWhile_eq_drop)
  then show ?thesis by (simp add: rev_drop)
qed

lemma single_spaced_strip: "single_spaced s \<Longrightarrow> single_spaced (py_strip U s)"
  unfolding py_strip_def rev_dropWhile_rev
  by (intro single_spaced_take single_spaced_dropWhile)

lemma set_py_strip: "set (py_strip U s) \<subseteq> set s"
proof -
  have "set (py_strip U s) \<subseteq> set (dropWhile (isspace U) s)"
    unfolding py_strip_def rev_dropWhile_rev by (rule set_take_subset)
  also have "\<dots> \<subseteq> set s" by (auto dest: set_dropWhileD)
  finally show ?thesis .
qed

lemma dropWhile_idem: "dropWhile P (dropWhile P s) = dropWhile P s"
  by (induction s) auto

lemma py_strip_idem: "py_strip U (py_strip U s) = py_strip U s"
proof -
  let ?P = "isspace U"
  let ?d = "dropWhile ?P s"
  let ?t = "rev (dropWhile ?P (rev ?d))"
  have hd_ok: "?t \<noteq> [] \<Longrightarrow> \<not> ?P (hd ?t)"
  proof -
    assume ne: "?t \<noteq> []"
    then have dne: "?d \<noteq> []" by (metis dropWhile.simps(1) rev.simps(1))
    then have nP: "\<not> ?P (hd ?d)" by (rule hd_dropWhile)
    have t: "?t = take (length ?d - length (takeWhile ?P (rev ?d))) ?d"
      by (rule rev_dropWhile_rev)
    from ne t have "0 < length ?d - length (takeWhile ?P (rev ?d))" by (metis take_eq_Nil gr0I)
    then have "hd ?t = hd ?d" by (subst t) (simp add: hd_take)
    with nP show ?thesis by simp
  qed
  have "dropWhile ?P ?t = ?t"
  proof (cases "?t = []")
    case True
    show ?thesis unfolding True by simp
  next
    case False
    from hd_ok[OF False] False show ?thesis by (cases ?t) simp_all
  qed
  then have "py_strip U (py_strip U s) = rev (dropWhile ?P (rev ?t))"
    by (simp add: py_strip_def)
  also have "\<dots> = ?t" by (simp add: dropWhile_idem)
  finally show ?thesis by (simp add: py_strip_def)
qed

lemma collapse_runs_chars:
  "c \<in> set (collapse_runs U s) \<Longrightarrow> c = 32 \<or> (c \<in> set s \<and> \<not> hyphen_or_space U c)"
proof (induction U s rule: collapse_runs.induct)
  case (1 U)
  then show ?case by simp
next
  case (2 U a cs)
  show ?case
  proof (cases "hyphen_or_space U a")
    case True
    with 2 show ?thesis by (auto dest: set_dropWhileD)
  next
    case False
    with 2 show ?thesis by auto
  qed
qed

lemma collapse_runs_hd:
  "s \<noteq> [] \<Longrightarrow> \<not> hyphen_or_space U (hd s) \<Longrightarrow> hd (collapse_runs U s) = hd s"
  by (cases s) simp_all

lemma collapse_runs_Nil_iff: "collapse_runs U s = [] \<longleftrightarrow> s = []"
  by (cases s) simp_all

lemma collapse_runs_single_spaced:
  assumes "isspace U 32"
  shows "single_spaced (collapse_runs U s)"
  using assms
proof (induction U s rule: collapse_runs.induct)
  case (1 U)
  then show ?case by simp
next
  case (2 U a cs)
  have sp: "hyphen_or_space U 32" if "isspace U 32" using that by (simp add: hyphen_or_space_def)
  show ?case
  proof (cases "hyphen_or_space U a")
    case True
    let ?r = "dropWhile (hyphen_or_space U) cs"
    have ih: "single_spaced (collapse_runs U ?r)" using 2(1)[OF True] 2(3) by simp
    have unf: "collapse_runs U (a # cs) = 32 # collapse_runs U ?r" using True by simp
    show ?thesis
    proof (cases "?r = []")
      case True
      show ?thesis unfolding unf True by simp
    next
      case False
      then have "\<not> hyphen_or_space U (hd ?r)" by (rule hd_dropWhile)
      with False have h: "hd (collapse_runs U ?r) = hd ?r" "\<not> hyphen_or_space U (hd ?r)"
        by (simp_all add: collapse_runs_hd)
      with sp[OF 2(3)] have "hd (collapse_runs U ?r) \<noteq> 32" by auto
      with ih show ?thesis unfolding unf by (simp add: single_spaced_Cons)
    qed
  next
    case False
    have ih: "single_spaced (collapse_runs U cs)" using 2(2)[OF False] 2(3) by simp
    from False sp[OF 2(3)] have "a \<noteq> 32" by auto
    with ih False show ?thesis by (simp add: single_spaced_Cons)
  qed
qed

lemma collapse_runs_fixed:
  assumes "\<forall>c \<in> set s. hyphen_or_space U c \<longrightarrow> c = 32" and "single_spaced s"
  shows "collapse_runs U s = s"
  using assms
proof (induction U s rule: collapse_runs.induct)
  case (1 U)
  then show ?case by simp
next
  case (2 U a cs)
  show ?case
  proof (cases "hyphen_or_space U a")
    case True
    with 2(3) have a: "a = 32" by simp
    have d: "dropWhile (hyphen_or_space U) cs = cs"
    proof (cases cs)
      case Nil
      then show ?thesis by simp
    next
      case (Cons b bs)
      with 2(4) a have "b \<noteq> 32" by simp
      with 2(3) Cons have "\<not> hyphen_or_space U b" by auto
      with Cons show ?thesis by simp
    qed
    have "collapse_runs U (dropWhile (hyphen_or_space U) cs) = dropWhile (hyphen_or_space U) cs"
      using 2(1)[OF True] 2(3,4) unfolding d by (auto dest: single_spaced_tl)
    with True a d show ?thesis by simp
  next
    case False
    have "collapse_runs U cs = cs"
      using 2(2)[OF False] 2(3,4) by (auto dest: single_spaced_tl)
    with False show ?thesis by simp
  qed
qed



subsection \<open>The cleaned name\<close>

lemma settled_not_space:
  assumes "lib_ok U" and "settled U d"
  shows "d \<noteq> 32" "\<not> isspace U d" "\<not> hyphen_or_space U d" "is_word U d"
proof -
  from assms(2) have w: "is_word U d" by (simp add: settled_def kept_def)
  then show "is_word U d" .
  from lib_okD(10)[OF assms(1) w] show ns: "\<not> isspace U d" .
  with lib_okD(1)[OF assms(1)] show "d \<noteq> 32" by auto
  from w lib_okD(7)[OF assms(1)] have "d \<noteq> 45" by (auto simp: is_word_def)
  with ns show "\<not> hyphen_or_space U d" by (simp add: hyphen_or_space_def)
qed

lemma cleaned_chars:
  assumes "lib_ok U" and "c \<in> set (cleaned U n)"
  shows "c = 32 \<or> (kept U c \<and> c \<in> set (nfkd U n))"
proof -
  from collapse_runs_chars[OF assms(2)[unfolded cleaned_def]]
  show ?thesis
  proof
    assume "c = 32" then show ?thesis by simp
  next
    assume a: "c \<in> set (filter (\<lambda>c. is_word U c \<or> isspace U c \<or> c = 45)
                  (filter (\<lambda>c. combining U c = 0) (nfkd U n))) \<and> \<not> hyphen_or_space U c"
    then have w: "is_word U c" and z: "combining U c = 0" and m: "c \<in> set (nfkd U n)"
      by (auto simp: hyphen_or_space_def)
    from m obtain x where "c \<in> set (decomposition U x)"
      by (auto simp: nfkd_def set_canonical_order)
    from lib_okD(11)[OF assms(1) this] w z m show ?thesis by (simp add: kept_def)
  qed
qed

lemma cleaned_single_spaced: "lib_ok U \<Longrightarrow> single_spaced (cleaned U n)"
  unfolding cleaned_def by (rule collapse_runs_single_spaced[OF lib_okD(1)])


lemma collapse_runs_all_sep:
  assumes "\<forall>c \<in> set s. hyphen_or_space U c"
  shows "collapse_runs U s = (if s = [] then [] else [32])"
proof (cases s)
  case Nil
  then show ?thesis by simp
next
  case (Cons a cs)
  with assms have a: "hyphen_or_space U a" and d: "dropWhile (hyphen_or_space U) cs = []"
    by simp_all
  have "collapse_runs U (a # cs) = 32 # collapse_runs U (dropWhile (hyphen_or_space U) cs)"
    using a by simp
  then show ?thesis unfolding Cons d by simp
qed

subsection \<open>Lowercasing\<close>

lemma lower_head_chars:
  assumes "lib_ok U" and "c = 32 \<or> kept U c"
    and "d \<in> set (if c = 0x3A3 then [if final_sigma U p rest then 0x3C2 else 0x3C3] else tolower U c)"
  shows "d = 32 \<or> settled U d"
proof (cases "c = 0x3A3")
  case True
  with assms(3) lib_okD(15,16)[OF assms(1)] show ?thesis by (auto split: if_splits)
next
  case False
  show ?thesis
  proof (cases "c = 32")
    case True
    with assms(3) lib_okD(4)[OF assms(1)] show ?thesis by simp
  next
    case n32: False
    with assms(2) have k: "kept U c" by simp
    from assms(3) False have "d \<in> set (tolower U c)" by simp
    from lib_okD(14)[OF assms(1) k False this] show ?thesis by simp
  qed
qed

lemma lower_from_chars:
  assumes "lib_ok U" and "\<forall>c \<in> set s. c = 32 \<or> kept U c" and "d \<in> set (lower_from U p s)"
  shows "d = 32 \<or> settled U d"
  using assms(2,3)
proof (induction s arbitrary: p)
  case Nil
  then show ?case by simp
next
  case (Cons c s)
  from Cons.prems(2) consider
    "d \<in> set (if c = 0x3A3 then [if final_sigma U p s then 0x3C2 else 0x3C3] else tolower U c)"
    | "d \<in> set (lower_from U (c # p) s)"
    by auto
  then show ?case
  proof cases
    case 1
    from Cons.prems(1) have "c = 32 \<or> kept U c" by simp
    from lower_head_chars[OF assms(1) this 1] show ?thesis .
  next
    case 2
    from Cons.IH[OF _ 2] Cons.prems(1) show ?thesis by simp
  qed
qed

lemma lower_from_fixed:
  assumes "\<forall>c \<in> set s. tolower U c = [c] \<and> c \<noteq> 0x3A3"
  shows "lower_from U p s = s"
  using assms by (induction s arbitrary: p) simp_all


lemma single_spaced_no_space: "\<forall>c \<in> set s. c \<noteq> 32 \<Longrightarrow> single_spaced s"
  by (induction s rule: single_spaced.induct) simp_all

lemma single_spaced_append:
  assumes "single_spaced l" and "single_spaced m"
    and "l \<noteq> [] \<Longrightarrow> m \<noteq> [] \<Longrightarrow> \<not> (last l = 32 \<and> hd m = 32)"
  shows "single_spaced (l @ m)"
  using assms
proof (induction l rule: single_spaced.induct)
  case (1 a b s)
  then show ?case by simp
next
  fix v :: nat
  assume "single_spaced [v]" and "single_spaced m"
    and "[v] \<noteq> [] \<Longrightarrow> m \<noteq> [] \<Longrightarrow> \<not> (last [v] = 32 \<and> hd m = 32)"
  then show "single_spaced ([v] @ m)" by (cases m) simp_all
qed simp



lemma lower_head_shape:
  fixes U :: py_lib and c :: nat and p rest :: "nat list"
  assumes "lib_ok U" and "c = 32 \<or> kept U c"
  defines "l \<equiv> (if c = 0x3A3 then [if final_sigma U p rest then 0x3C2 else 0x3C3] else tolower U c)"
  shows "l \<noteq> []" and "c = 32 \<Longrightarrow> l = [32]" and "c \<noteq> 32 \<Longrightarrow> \<forall>d \<in> set l. d \<noteq> 32"
proof -
  show "l \<noteq> []"
  proof (cases "c = 0x3A3")
    case True
    then show ?thesis by (simp add: l_def)
  next
    case False
    show ?thesis
    proof (cases "c = 32")
      case True
      with lib_okD(4)[OF assms(1)] show ?thesis by (simp add: l_def)
    next
      case n: False
      with assms(2) have "kept U c" by simp
      from lib_okD(13)[OF assms(1) this False] False show ?thesis by (simp add: l_def)
    qed
  qed
  show "c = 32 \<Longrightarrow> l = [32]"
    using lib_okD(4)[OF assms(1)] by (simp add: l_def)
  show "\<forall>d \<in> set l. d \<noteq> 32" if n: "c \<noteq> 32"
  proof
    fix d assume "d \<in> set l"
    then have "d = 32 \<or> settled U d"
      unfolding l_def by (rule lower_head_chars[OF assms(1,2)])
    moreover have "settled U d \<Longrightarrow> d \<noteq> 32"
      by (rule settled_not_space(1)[OF assms(1)])
    moreover have "d = 32 \<Longrightarrow> False"
    proof -
      assume d: "d = 32"
      show False
      proof (cases "c = 0x3A3")
        case True
        with \<open>d \<in> set l\<close> d show False by (simp add: l_def split: if_splits)
      next
        case False
        from n assms(2) have k: "kept U c" by simp
        from \<open>d \<in> set l\<close> False have "d \<in> set (tolower U c)" by (simp add: l_def)
        from lib_okD(14)[OF assms(1) k False this] settled_not_space(1)[OF assms(1)] d
        show False by blast
      qed
    qed
    ultimately show "d \<noteq> 32" by blast
  qed
qed

lemma lower_from_shape:
  assumes "lib_ok U" and "\<forall>c \<in> set s. c = 32 \<or> kept U c" and "single_spaced s"
  shows "single_spaced (lower_from U p s) \<and>
         (s \<noteq> [] \<longrightarrow> lower_from U p s \<noteq> [] \<and> (hd (lower_from U p s) = 32 \<longleftrightarrow> hd s = 32))"
  using assms(2,3)
proof (induction s arbitrary: p)
  case Nil
  then show ?case by simp
next
  case (Cons c s)
  let ?l = "(if c = 0x3A3 then [if final_sigma U p s then 0x3C2 else 0x3C3] else tolower U c)"
  let ?m = "lower_from U (c # p) s"
  from Cons.prems(1) have c: "c = 32 \<or> kept U c" by simp
  note sh = lower_head_shape[OF assms(1) c, of p s]
  have ih: "single_spaced ?m"
    "s \<noteq> [] \<Longrightarrow> ?m \<noteq> [] \<and> (hd ?m = 32 \<longleftrightarrow> hd s = 32)"
    using Cons.IH[of "c # p"] Cons.prems single_spaced_tl[OF Cons.prems(2)] by auto
  have sl: "single_spaced ?l"
  proof (cases "c = 32")
    case True
    from sh(2)[OF True] show ?thesis by simp
  next
    case False
    from sh(3)[OF False] show ?thesis by (rule single_spaced_no_space)
  qed
  have bd: "\<not> (last ?l = 32 \<and> hd ?m = 32)" if "?m \<noteq> []"
  proof (cases "c = 32")
    case True
    from that have "s \<noteq> []" by auto
    with Cons.prems(2) True have "hd s \<noteq> 32" by (simp add: single_spaced_Cons)
    with ih(2)[OF \<open>s \<noteq> []\<close>] show ?thesis by simp
  next
    case False
    from sh(1) have "last ?l \<in> set ?l" by (rule last_in_set)
    with sh(3)[OF False] show ?thesis by blast
  qed
  have eq: "lower_from U p (c # s) = ?l @ ?m" by simp
  have 1: "single_spaced (lower_from U p (c # s))"
    unfolding eq using sl ih(1) bd by (rule single_spaced_append)
  have hd_eq: "hd (lower_from U p (c # s)) = hd ?l"
    unfolding eq using sh(1) by (rule hd_append2)
  have 2: "hd (lower_from U p (c # s)) = 32 \<longleftrightarrow> c = 32"
  proof (cases "c = 32")
    case True
    from sh(2)[OF True] True show ?thesis unfolding hd_eq by simp
  next
    case False
    from sh(1) have "hd ?l \<in> set ?l" by (rule hd_in_set)
    with sh(3)[OF False] False show ?thesis unfolding hd_eq by blast
  qed
  have 3: "lower_from U p (c # s) \<noteq> []"
    unfolding eq using sh(1) by simp
  from 1 2 3 show ?case by simp
qed

subsection \<open>The normalized name\<close>

lemma normalize_name_chars:
  assumes "lib_ok U" and "d \<in> set (normalize_name U n)"
  shows "d = 32 \<or> settled U d"
proof -
  from assms(2) have "d \<in> set (lower_from U [] (cleaned U n))"
    unfolding normalize_name_cleaned py_lower_def using set_py_strip by blast
  moreover have "\<forall>c \<in> set (cleaned U n). c = 32 \<or> kept U c"
    using cleaned_chars[OF assms(1)] by blast
  ultimately show ?thesis
    using lower_from_chars[OF assms(1)] by blast
qed

lemma normalize_name_single_spaced:
  assumes "lib_ok U"
  shows "single_spaced (normalize_name U n)"
proof -
  have "\<forall>c \<in> set (cleaned U n). c = 32 \<or> kept U c"
    using cleaned_chars[OF assms] by blast
  from lower_from_shape[OF assms this cleaned_single_spaced[OF assms]]
  have "single_spaced (py_lower U (cleaned U n))" by (simp add: py_lower_def)
  then show ?thesis unfolding normalize_name_cleaned by (rule single_spaced_strip)
qed

lemma concat_singletons: "\<forall>c \<in> set s. f c = [c] \<Longrightarrow> concat (map f s) = s"
  by (induction s) simp_all

text \<open>A string of spaces and settled code points without double spaces goes through
  every step before the final strip unchanged.\<close>

lemma settled_string_fixed:
  assumes "lib_ok U" and "\<forall>c \<in> set s. c = 32 \<or> settled U c" and "single_spaced s"
  shows "cleaned U s = s" and "py_lower U s = s"
proof -
  have dec: "\<forall>c \<in> set s. decomposition U c = [c]"
    using assms(2) lib_okD(3)[OF assms(1)] by (auto simp: settled_def kept_def)
  have ccc: "\<forall>c \<in> set s. combining U c = 0"
    using assms(2) lib_okD(2)[OF assms(1)] by (auto simp: settled_def kept_def)
  have keep: "\<forall>c \<in> set s. is_word U c \<or> isspace U c \<or> c = 45"
    using assms(2) lib_okD(1)[OF assms(1)] by (auto simp: settled_def kept_def)
  have sep: "\<forall>c \<in> set s. hyphen_or_space U c \<longrightarrow> c = 32"
    using assms(2) settled_not_space(3)[OF assms(1)] by blast
  have n: "nfkd U s = s"
    unfolding nfkd_def concat_singletons[OF dec] by (rule canonical_order_unmarked[OF ccc])
  have f1: "filter (\<lambda>c. combining U c = 0) s = s"
    using ccc by (simp add: filter_id_conv)
  have f2: "filter (\<lambda>c. is_word U c \<or> isspace U c \<or> c = 45) s = s"
    using keep by (simp add: filter_id_conv)
  show "cleaned U s = s"
    unfolding cleaned_def n f1 f2 by (rule collapse_runs_fixed[OF sep assms(3)])
  have "\<forall>c \<in> set s. tolower U c = [c] \<and> c \<noteq> 0x3A3"
    using assms(2) lib_okD(4)[OF assms(1)] by (auto simp: settled_def)
  then show "py_lower U s = s"
    unfolding py_lower_def by (rule lower_from_fixed)
qed

lemma normalize_name_idem:
  assumes "lib_ok U"
  shows "normalize_name U (normalize_name U n) = normalize_name U n"
proof -
  let ?out = "normalize_name U n"
  have ch: "\<forall>c \<in> set ?out. c = 32 \<or> settled U c"
    using normalize_name_chars[OF assms] by blast
  note fx = settled_string_fixed[OF assms ch normalize_name_single_spaced[OF assms]]
  have "normalize_name U ?out = py_strip U ?out"
    by (subst normalize_name_cleaned) (simp add: fx)
  also have "\<dots> = ?out"
    unfolding normalize_name_cleaned by (rule py_strip_idem)
  finally show ?thesis .
qed








lemma ucd_sel:
  "decomposition ucd = ucd_decomposition" "combining ucd = ucd_combining"
  "isalnum ucd = ucd_isalnum" "isspace ucd = ucd_isspace" "tolower ucd = ucd_tolower"
  "totitle ucd = ucd_totitle" "cased ucd = ucd_letter" "case_ignorable ucd = ucd_case_ignorable"
  "int_of_str ucd = ascii_int"
  by (simp_all add: ucd_def)

lemma ucd_word_not_space: "is_word ucd c \<Longrightarrow> \<not> isspace ucd c"
  by (auto simp: is_word_def ucd_sel ucd_isalnum_def ucd_letter_def ucd_isspace_def)

lemma ucd_decomposition_full: "d \<in> set (ucd_decomposition c) \<Longrightarrow> ucd_decomposition d = [d]"
  by (auto simp: ucd_decomposition_def split: if_splits)

lemma ucd_space_decomposition: "ucd_isspace c \<Longrightarrow> d \<in> set (ucd_decomposition c) \<Longrightarrow> ucd_isspace d"
  by (auto simp: ucd_decomposition_def ucd_isspace_def split: if_splits)



lemma ucd_kept_iff:
  "kept ucd c \<longleftrightarrow> (ucd_isalnum c \<or> c = 95) \<and> c \<noteq> 0x301 \<and> c \<notin> {0xA0, 0xC9, 0xCD, 0xE9, 0xED}"
  by (auto simp: kept_def is_word_def ucd_sel ucd_combining_def ucd_decomposition_def)

lemma ucd_settled_ascii_lower: "97 \<le> d \<Longrightarrow> d \<le> 122 \<Longrightarrow> settled ucd d"
  by (simp add: settled_def ucd_kept_iff ucd_sel ucd_tolower_def ucd_isalnum_def ucd_letter_def)

lemma ucd_settled_greek:
  "settled ucd 0x3B1" "settled ucd 0x3B2" "settled ucd 0x3C2" "settled ucd 0x3C3"
  by (simp_all add: settled_def ucd_kept_iff ucd_sel ucd_tolower_def ucd_isalnum_def ucd_letter_def)

lemma ucd_kept_lower:
  assumes "kept ucd c" and "c \<noteq> 0x3A3"
  shows "ucd_tolower c \<noteq> [] \<and> (\<forall>d \<in> set (ucd_tolower c). settled ucd d)"
proof -
  from assms(1) have nx: "c \<noteq> 0xC9" "c \<noteq> 0xCD"
    by (simp_all add: ucd_kept_iff)
  consider (upper) "65 \<le> c \<and> c \<le> 90" | (alpha) "c = 0x391" | (beta) "c = 0x392"
    | (other) "\<not> (65 \<le> c \<and> c \<le> 90)" "c \<noteq> 0x391" "c \<noteq> 0x392"
    by blast
  then show ?thesis
  proof cases
    case upper
    then have t: "ucd_tolower c = [c + 32]" by (simp add: ucd_tolower_def)
    from upper have "settled ucd (c + 32)" by (intro ucd_settled_ascii_lower) simp_all
    with t show ?thesis by simp
  next
    case alpha
    then have "ucd_tolower c = [0x3B1]" by (simp add: ucd_tolower_def)
    with ucd_settled_greek(1) show ?thesis by simp
  next
    case beta
    then have "ucd_tolower c = [0x3B2]" by (simp add: ucd_tolower_def)
    with ucd_settled_greek(2) show ?thesis by simp
  next
    case other
    with nx assms(2) have t: "ucd_tolower c = [c]" by (simp add: ucd_tolower_def)
    with assms have "settled ucd c" by (simp add: settled_def ucd_sel)
    with t show ?thesis by simp
  qed
qed

lemma lib_ok_ucd: "lib_ok ucd"
  unfolding lib_ok_def
proof (intro conjI allI impI ballI)
  show "isspace ucd 32" by (simp add: ucd_sel ucd_isspace_def)
  show "combining ucd 32 = 0" by (simp add: ucd_sel ucd_combining_def)
  show "decomposition ucd 32 = [32]" by (simp add: ucd_sel ucd_decomposition_def)
  show "tolower ucd 32 = [32]" by (simp add: ucd_sel ucd_tolower_def)
  show "\<not> cased ucd 32" by (simp add: ucd_sel ucd_letter_def)
  show "\<not> case_ignorable ucd 32" by (simp add: ucd_sel ucd_case_ignorable_def)
  show "\<not> isalnum ucd 45" by (simp add: ucd_sel ucd_isalnum_def ucd_letter_def)
  show "combining ucd 45 = 0" by (simp add: ucd_sel ucd_combining_def)
  show "decomposition ucd 45 = [45]" by (simp add: ucd_sel ucd_decomposition_def)
  show "\<not> isspace ucd c" if "is_word ucd c" for c
    using that by (rule ucd_word_not_space)
  show "decomposition ucd d = [d]" if "d \<in> set (decomposition ucd c)" for c d
    using that unfolding ucd_sel by (rule ucd_decomposition_full)
  show "isspace ucd d" if "isspace ucd c \<and> d \<in> set (decomposition ucd c)" for c d
    using that unfolding ucd_sel by (blast intro: ucd_space_decomposition)
  show "tolower ucd c \<noteq> []" if "kept ucd c \<and> c \<noteq> 0x3A3" for c
    using that ucd_kept_lower[of c] unfolding ucd_sel by blast
  show "settled ucd d" if "kept ucd c \<and> c \<noteq> 0x3A3" "d \<in> set (tolower ucd c)" for c d
    using that ucd_kept_lower[of c] unfolding ucd_sel by blast
  show "settled ucd 0x3C2" by (rule ucd_settled_greek)
  show "settled ucd 0x3C3" by (rule ucd_settled_greek)
qed

subsection \<open>Names that normalize alike\<close>

lemma case_pair_not_sep:
  assumes "lib_ok U" and "case_pair U c d"
  shows "\<not> hyphen_or_space U c" "\<not> hyphen_or_space U d" "is_word U c" "is_word U d"
proof -
  from assms(2) have a: "isalnum U c" "isalnum U d" by (simp_all add: case_pair_def)
  then show w: "is_word U c" "is_word U d" by (simp_all add: is_word_def)
  from a lib_okD(7)[OF assms(1)] have "c \<noteq> 45" "d \<noteq> 45" by auto
  with lib_okD(10)[OF assms(1) w(1)] lib_okD(10)[OF assms(1) w(2)]
  show "\<not> hyphen_or_space U c" "\<not> hyphen_or_space U d"
    by (simp_all add: hyphen_or_space_def)
qed

lemma similar_sep:
  assumes "lib_ok U" and "similar U c d"
  shows "hyphen_or_space U c = hyphen_or_space U d"
  using assms(2) case_pair_not_sep(1,2)[OF assms(1), of c d]
  unfolding similar_def by blast

lemma similar_keep:
  assumes "lib_ok U" and "similar U c d"
  shows "(is_word U c \<or> isspace U c \<or> c = 45) = (is_word U d \<or> isspace U d \<or> d = 45)"
  using assms(2) case_pair_not_sep(3,4)[OF assms(1), of c d]
  unfolding similar_def hyphen_or_space_def by blast

lemma similar_unsep:
  assumes "lib_ok U" and "similar U c d" and "\<not> hyphen_or_space U c"
  shows "case_similar U c d"
  using assms(2,3) unfolding similar_def case_similar_def by blast

lemma list_all2_filter:
  assumes "list_all2 R xs ys" and "\<And>x y. R x y \<Longrightarrow> P x = Q y"
  shows "list_all2 R (filter P xs) (filter Q ys)"
  using assms(1)
proof (induction rule: list_all2_induct)
  case Nil
  then show ?case by simp
next
  case (Cons x xs y ys)
  from assms(2)[OF Cons.hyps(1)] Cons.hyps(1) Cons.IH show ?case by simp
qed

lemma list_all2_dropWhile:
  assumes "list_all2 R xs ys" and "\<And>x y. R x y \<Longrightarrow> P x = Q y"
  shows "list_all2 R (dropWhile P xs) (dropWhile Q ys)"
  using assms(1)
proof (induction rule: list_all2_induct)
  case Nil
  then show ?case by simp
next
  case (Cons x xs y ys)
  from assms(2)[OF Cons.hyps(1)] Cons.hyps Cons.IH show ?case by simp
qed

lemma collapse_runs_similar:
  assumes "lib_ok U" and "list_all2 (similar U) x y"
  shows "list_all2 (case_similar U) (collapse_runs U x) (collapse_runs U y)"
  using assms
proof (induction U x arbitrary: y rule: collapse_runs.induct)
  case (1 U)
  then show ?case by simp
next
  case (2 V c cs)
  from "2.prems"(2) obtain d ds where y: "y = d # ds" and cd: "similar V c d"
    and rest: "list_all2 (similar V) cs ds"
    by (auto simp: list_all2_Cons1)
  note sep = similar_sep[OF "2.prems"(1)]
  show ?case
  proof (cases "hyphen_or_space V c")
    case True
    with sep[OF cd] have d: "hyphen_or_space V d" by simp
    have "list_all2 (similar V) (dropWhile (hyphen_or_space V) cs) (dropWhile (hyphen_or_space V) ds)"
      using rest sep by (rule list_all2_dropWhile)
    moreover have "case_similar V 32 32" by (simp add: case_similar_def)
    ultimately have "list_all2 (case_similar V) (32 # collapse_runs V (dropWhile (hyphen_or_space V) cs))
            (32 # collapse_runs V (dropWhile (hyphen_or_space V) ds))"
      using "2.IH"(1)[OF True "2.prems"(1)] by simp
    with True d show ?thesis unfolding y by simp
  next
    case False
    with sep[OF cd] have d: "\<not> hyphen_or_space V d" by simp
    from "2.IH"(2)[OF False "2.prems"(1) rest] similar_unsep[OF "2.prems"(1) cd False]
    have "list_all2 (case_similar V) (c # collapse_runs V cs) (d # collapse_runs V ds)"
      by simp
    with False d show ?thesis unfolding y by simp
  qed
qed

lemma case_similar_context:
  assumes "case_similar U c d"
  shows "cased U c = cased U d" "case_ignorable U c = case_ignorable U d"
  using assms unfolding case_similar_def case_pair_def by auto

lemma head_similar:
  assumes "list_all2 (case_similar U) A B"
  shows "(case A of [] \<Rightarrow> x | c # _ \<Rightarrow> f (cased U c)) = (case B of [] \<Rightarrow> x | d # _ \<Rightarrow> f (cased U d))"
proof (cases A)
  case Nil
  with assms show ?thesis by simp
next
  case (Cons c A')
  with assms obtain d B' where B: "B = d # B'" and cd: "case_similar U c d"
    by (auto simp: list_all2_Cons1)
  from case_similar_context(1)[OF cd] show ?thesis unfolding Cons B by simp
qed

lemma final_sigma_similar:
  assumes "list_all2 (case_similar U) pa pb" and "list_all2 (case_similar U) ra rb"
  shows "final_sigma U pa ra = final_sigma U pb rb"
proof -
  have p: "list_all2 (case_similar U) (dropWhile (case_ignorable U) pa) (dropWhile (case_ignorable U) pb)"
    using assms(1) case_similar_context(2) by (rule list_all2_dropWhile)
  have r: "list_all2 (case_similar U) (dropWhile (case_ignorable U) ra) (dropWhile (case_ignorable U) rb)"
    using assms(2) case_similar_context(2) by (rule list_all2_dropWhile)
  have r': "(case dropWhile (case_ignorable U) ra of [] \<Rightarrow> True | d # _ \<Rightarrow> \<not> cased U d) =
            (case dropWhile (case_ignorable U) rb of [] \<Rightarrow> True | d # _ \<Rightarrow> \<not> cased U d)"
    using r by (rule head_similar)
  define v where "v = (case dropWhile (case_ignorable U) rb of [] \<Rightarrow> True | d # _ \<Rightarrow> \<not> cased U d)"
  have "final_sigma U pa ra =
      (case dropWhile (case_ignorable U) pa of [] \<Rightarrow> False | c # _ \<Rightarrow> (\<lambda>b. b \<and> v) (cased U c))"
    unfolding final_sigma_def r' v_def ..
  also have "\<dots> =
      (case dropWhile (case_ignorable U) pb of [] \<Rightarrow> False | c # _ \<Rightarrow> (\<lambda>b. b \<and> v) (cased U c))"
    using p by (rule head_similar)
  also have "\<dots> = final_sigma U pb rb"
    unfolding final_sigma_def v_def ..
  finally show ?thesis .
qed

lemma lower_from_similar:
  assumes "list_all2 (case_similar U) a b" and "list_all2 (case_similar U) pa pb"
  shows "lower_from U pa a = lower_from U pb b"
  using assms
proof (induction arbitrary: pa pb rule: list_all2_induct)
  case Nil
  then show ?case by simp
next
  case (Cons c a d b)
  have next_ctx: "list_all2 (case_similar U) (c # pa) (d # pb)"
    using Cons.hyps(1) Cons.prems by simp
  note ih = Cons.IH[OF next_ctx]
  have hd_eq: "(if c = 0x3A3 then [if final_sigma U pa a then 0x3C2 else 0x3C3] else tolower U c) =
               (if d = 0x3A3 then [if final_sigma U pb b then 0x3C2 else 0x3C3] else tolower U d)"
  proof (cases "c = d")
    case True
    with final_sigma_similar[OF Cons.prems Cons.hyps(2)] show ?thesis by simp
  next
    case False
    with Cons.hyps(1) have "case_pair U c d" by (simp add: case_similar_def)
    then show ?thesis by (simp add: case_pair_def)
  qed
  show ?case unfolding lower_from.simps hd_eq ih ..
qed

lemma cleaned_base: "cleaned U n =
    collapse_runs U (filter (\<lambda>c. is_word U c \<or> isspace U c \<or> c = 45) (base_chars U n))"
  unfolding cleaned_def base_chars_def unmarked_nfkd ..

lemma normalize_name_similar:
  assumes "lib_ok U" and "list_all2 (similar U) (base_chars U a) (base_chars U b)"
  shows "normalize_name U a = normalize_name U b"
proof -
  have "list_all2 (similar U)
          (filter (\<lambda>c. is_word U c \<or> isspace U c \<or> c = 45) (base_chars U a))
          (filter (\<lambda>c. is_word U c \<or> isspace U c \<or> c = 45) (base_chars U b))"
    using assms(2) similar_keep[OF assms(1)] by (rule list_all2_filter)
  from collapse_runs_similar[OF assms(1) this]
  have "list_all2 (case_similar U) (cleaned U a) (cleaned U b)"
    unfolding cleaned_base .
  then have "py_lower U (cleaned U a) = py_lower U (cleaned U b)"
    unfolding py_lower_def by (rule lower_from_similar) simp
  then show ?thesis unfolding normalize_name_cleaned by simp
qed

lemma final_sigma_prev_space:
  assumes "lib_ok U"
  shows "final_sigma U (p @ 32 # q) rest = final_sigma U p rest"
proof (cases "\<forall>c \<in> set p. case_ignorable U c")
  case True
  then have d: "dropWhile (case_ignorable U) (p @ 32 # q) = 32 # q"
    "dropWhile (case_ignorable U) p = []"
    using lib_okD(6)[OF assms] by (simp_all add: dropWhile_append2)
  show ?thesis unfolding final_sigma_def d using lib_okD(5)[OF assms] by simp
next
  case False
  then obtain c where "c \<in> set p" "\<not> case_ignorable U c" by blast
  then have "dropWhile (case_ignorable U) (p @ 32 # q) = dropWhile (case_ignorable U) p @ 32 # q"
    and "dropWhile (case_ignorable U) p \<noteq> []"
    by (auto simp: dropWhile_append1 dropWhile_eq_Nil_conv)
  then show ?thesis unfolding final_sigma_def
    by (cases "dropWhile (case_ignorable U) p") simp_all
qed

lemma final_sigma_rest_space:
  assumes "lib_ok U"
  shows "final_sigma U p (rest @ 32 # q) = final_sigma U p rest"
proof -
  have e: "(case dropWhile (case_ignorable U) (rest @ 32 # q) of [] \<Rightarrow> True | d # _ \<Rightarrow> \<not> cased U d) =
        (case dropWhile (case_ignorable U) rest of [] \<Rightarrow> True | d # _ \<Rightarrow> \<not> cased U d)"
  proof (cases "\<forall>c \<in> set rest. case_ignorable U c")
    case True
    then have d: "dropWhile (case_ignorable U) (rest @ 32 # q) = 32 # q"
      "dropWhile (case_ignorable U) rest = []"
      using lib_okD(6)[OF assms] by (simp_all add: dropWhile_append2)
    show ?thesis unfolding d using lib_okD(5)[OF assms] by simp
  next
    case False
    then obtain c where "c \<in> set rest" "\<not> case_ignorable U c" by blast
    then have "dropWhile (case_ignorable U) (rest @ 32 # q) = dropWhile (case_ignorable U) rest @ 32 # q"
      and "dropWhile (case_ignorable U) rest \<noteq> []"
      by (auto simp: dropWhile_append1 dropWhile_eq_Nil_conv)
    then show ?thesis
      by (cases "dropWhile (case_ignorable U) rest") simp_all
  qed
  show ?thesis unfolding final_sigma_def e ..
qed

lemma lower_from_prev_space:
  assumes "lib_ok U"
  shows "lower_from U (p @ 32 # q) s = lower_from U p s"
proof (induction s arbitrary: p)
  case Nil
  then show ?case by simp
next
  case (Cons c s)
  from Cons.IH[of "c # p"] final_sigma_prev_space[OF assms, of p q s]
  show ?case by simp
qed

lemma lower_from_snoc_space:
  assumes "lib_ok U"
  shows "lower_from U p (s @ [32]) = lower_from U p s @ [32]"
proof (induction s arbitrary: p)
  case Nil
  then show ?case using lib_okD(4)[OF assms] by simp
next
  case (Cons c s)
  from Cons.IH[of "c # p"] final_sigma_rest_space[OF assms, of p s "[]"]
  show ?case by simp
qed

lemma py_strip_Cons_space: "isspace U w \<Longrightarrow> py_strip U (w # s) = py_strip U s"
  by (simp add: py_strip_def)

lemma py_strip_snoc_space:
  assumes "isspace U w"
  shows "py_strip U (s @ [w]) = py_strip U s"
proof (cases "\<forall>c \<in> set s. isspace U c")
  case True
  then have d: "dropWhile (isspace U) (s @ [w]) = []" "dropWhile (isspace U) s = []"
    using assms by simp_all
  show ?thesis unfolding py_strip_def d ..
next
  case False
  then obtain c where "c \<in> set s" "\<not> isspace U c" by blast
  then have "dropWhile (isspace U) (s @ [w]) = dropWhile (isspace U) s @ [w]"
    by (simp add: dropWhile_append1)
  then show ?thesis unfolding py_strip_def using assms by simp
qed

lemma lead_space_dropped:
  assumes "lib_ok U"
  shows "py_strip U (py_lower U (32 # s)) = py_strip U (py_lower U s)"
proof -
  have "py_lower U (32 # s) = 32 # lower_from U ([] @ 32 # []) s"
    unfolding py_lower_def using lib_okD(4)[OF assms] by simp
  also have "\<dots> = 32 # py_lower U s"
    unfolding lower_from_prev_space[OF assms] py_lower_def ..
  finally show ?thesis using lib_okD(1)[OF assms] by (simp add: py_strip_Cons_space)
qed

lemma trail_space_dropped:
  assumes "lib_ok U"
  shows "py_strip U (py_lower U (s @ [32])) = py_strip U (py_lower U s)"
  unfolding py_lower_def lower_from_snoc_space[OF assms]
  using lib_okD(1)[OF assms] by (rule py_strip_snoc_space)

lemma collapse_runs_lead:
  assumes "\<forall>c \<in> set w. hyphen_or_space U c" and "w \<noteq> []"
  shows "collapse_runs U (w @ s) = 32 # collapse_runs U (dropWhile (hyphen_or_space U) s)"
proof -
  from assms obtain a w' where w: "w = a # w'" by (cases w) auto
  with assms(1) have a: "hyphen_or_space U a" and w': "\<forall>c \<in> set w'. hyphen_or_space U c"
    by simp_all
  from w' have "dropWhile (hyphen_or_space U) (w' @ s) = dropWhile (hyphen_or_space U) s"
    by (simp add: dropWhile_append2)
  with a show ?thesis unfolding w by simp
qed

lemma collapse_runs_dropWhile:
  "collapse_runs U s =
     (if s \<noteq> [] \<and> hyphen_or_space U (hd s)
      then 32 # collapse_runs U (dropWhile (hyphen_or_space U) s)
      else collapse_runs U (dropWhile (hyphen_or_space U) s))"
  by (cases s) simp_all

lemma lead_dropped:
  assumes "lib_ok U" and "\<forall>c \<in> set w. hyphen_or_space U c"
  shows "py_strip U (py_lower U (collapse_runs U (w @ s))) =
         py_strip U (py_lower U (collapse_runs U s))"
proof -
  let ?y = "collapse_runs U (dropWhile (hyphen_or_space U) s)"
  have 1: "py_strip U (py_lower U (collapse_runs U t)) = py_strip U (py_lower U (collapse_runs U (dropWhile (hyphen_or_space U) t)))" for t
    by (subst collapse_runs_dropWhile) (simp add: lead_space_dropped[OF assms(1)])
  have "dropWhile (hyphen_or_space U) (w @ s) = dropWhile (hyphen_or_space U) s"
    using assms(2) by (simp add: dropWhile_append2)
  with 1[of "w @ s"] 1[of s] show ?thesis by simp
qed

lemma collapse_runs_trail:
  assumes "\<forall>c \<in> set w. hyphen_or_space U c" and "w \<noteq> []"
  shows "collapse_runs U (s @ w) =
         (if s \<noteq> [] \<and> hyphen_or_space U (last s) then collapse_runs U s
          else collapse_runs U s @ [32])"
  using assms
proof (induction U s rule: collapse_runs.induct)
  case (1 U)
  then show ?case using collapse_runs_all_sep[of w U] by simp
next
  case (2 U c cs)
  show ?case
  proof (cases "hyphen_or_space U c")
    case sep: True
    show ?thesis
    proof (cases "\<forall>x \<in> set cs. hyphen_or_space U x")
      case True
      with "2.prems" have d: "dropWhile (hyphen_or_space U) (cs @ w) = []"
        "dropWhile (hyphen_or_space U) cs = []"
        by simp_all
      have l: "hyphen_or_space U (last (c # cs))"
        using True sep by (cases "cs = []") simp_all
      have "collapse_runs U ((c # cs) @ w) =
            32 # collapse_runs U (dropWhile (hyphen_or_space U) (cs @ w))"
        and "collapse_runs U (c # cs) = 32 # collapse_runs U (dropWhile (hyphen_or_space U) cs)"
        using sep by simp_all
      then have "collapse_runs U ((c # cs) @ w) = [32]" "collapse_runs U (c # cs) = [32]"
        unfolding d by simp_all
      with l show ?thesis by simp
    next
      case False
      then obtain x where x: "x \<in> set cs" "\<not> hyphen_or_space U x" by blast
      let ?d = "dropWhile (hyphen_or_space U) cs"
      from x have d: "dropWhile (hyphen_or_space U) (cs @ w) = ?d @ w"
        by (simp add: dropWhile_append1)
      from x have ne: "?d \<noteq> []" by (auto simp: dropWhile_eq_Nil_conv)
      then have cne: "cs \<noteq> []" by auto
      have "last cs = last (takeWhile (hyphen_or_space U) cs @ ?d)" by simp
      also have "\<dots> = last ?d" using ne by (simp only: last_append if_False)
      finally have l: "last (c # cs) = last ?d" using cne by simp
      have "collapse_runs U ((c # cs) @ w) = 32 # collapse_runs U (?d @ w)"
        using sep d by simp
      also have "collapse_runs U (?d @ w) =
          (if hyphen_or_space U (last ?d) then collapse_runs U ?d else collapse_runs U ?d @ [32])"
        using "2.IH"(1)[OF sep "2.prems"] ne by simp
      finally show ?thesis using sep l by simp
    qed
  next
    case False
    have l: "cs \<noteq> [] \<and> hyphen_or_space U (last cs) \<longleftrightarrow> hyphen_or_space U (last (c # cs))"
      using False by simp
    from "2.IH"(2)[OF False "2.prems"] False
    have "collapse_runs U ((c # cs) @ w) =
        (if cs \<noteq> [] \<and> hyphen_or_space U (last cs) then c # collapse_runs U cs
         else c # collapse_runs U cs @ [32])"
      by simp
    then show ?thesis unfolding l using False by simp
  qed
qed

lemma trail_dropped:
  assumes "lib_ok U" and "\<forall>c \<in> set w. hyphen_or_space U c"
  shows "py_strip U (py_lower U (collapse_runs U (s @ w))) =
         py_strip U (py_lower U (collapse_runs U s))"
proof (cases "w = []")
  case True
  then show ?thesis by simp
next
  case False
  show ?thesis
    unfolding collapse_runs_trail[OF assms(2) False]
    by (simp add: trail_space_dropped[OF assms(1)])
qed

lemma base_chars_append: "base_chars U (a @ b) = base_chars U a @ base_chars U b"
  by (simp add: base_chars_def)

lemma base_chars_space:
  assumes "lib_ok U" and "\<forall>c \<in> set w. isspace U c"
  shows "\<forall>c \<in> set (base_chars U w). isspace U c"
  using assms(2) lib_okD(12)[OF assms(1)] unfolding base_chars_def by auto

lemma normalize_name_trim:
  assumes "lib_ok U" and "\<forall>c \<in> set l. isspace U c" and "\<forall>c \<in> set r. isspace U c"
  shows "normalize_name U (l @ n @ r) = normalize_name U n"
proof -
  let ?keep = "\<lambda>c. is_word U c \<or> isspace U c \<or> c = 45"
  have sp: "\<forall>c \<in> set (filter ?keep (base_chars U w)). hyphen_or_space U c"
    if "\<forall>c \<in> set w. isspace U c" for w
    using base_chars_space[OF assms(1) that] by (simp add: hyphen_or_space_def)
  have "cleaned U (l @ n @ r) =
      collapse_runs U (filter ?keep (base_chars U l) @
        (filter ?keep (base_chars U n) @ filter ?keep (base_chars U r)))"
    unfolding cleaned_base base_chars_append filter_append ..
  then have "normalize_name U (l @ n @ r) =
      py_strip U (py_lower U (collapse_runs U (filter ?keep (base_chars U n) @ filter ?keep (base_chars U r))))"
    unfolding normalize_name_cleaned
    using lead_dropped[OF assms(1) sp[OF assms(2)]] by simp
  also have "\<dots> = py_strip U (py_lower U (collapse_runs U (filter ?keep (base_chars U n))))"
    by (rule trail_dropped[OF assms(1) sp[OF assms(3)]])
  also have "\<dots> = normalize_name U n"
    unfolding normalize_name_cleaned cleaned_base ..
  finally show ?thesis .
qed

subsection \<open>Idempotence and insensitivity\<close>

text \<open>
  The capital sigma: \<open>str.lower\<close> turns it into the final sigma U+03C2 at the end of a word
  and into U+03C3 elsewhere, and neither small sigma is changed by it. The upper-case name
  U+0391 U+03A3 and the lower-case name U+03B1 U+03C3, the lower case of its letters one by
  one, normalize to different keys.
\<close>

theorem capital_sigma_is_case_sensitive:
  "tolower ucd 0x391 = [0x3B1] \<and> tolower ucd 0x3A3 = [0x3C3] \<and>
   normalize_name ucd [0x391, 0x3A3] = [0x3B1, 0x3C2] \<and>
   normalize_name ucd [0x3B1, 0x3C3] = [0x3B1, 0x3C3] \<and>
   normalize_name ucd [0x391, 0x3A3] \<noteq> normalize_name ucd [0x3B1, 0x3C3]"
  by code_simp

text \<open>
  C6 (as the code has it). Over tables that satisfy \<open>lib_ok\<close>, \<open>normalize_name\<close> is idempotent,
  and two names normalize to the same key whenever, leading and trailing whitespace of the
  first apart, their base characters (the code points of the decomposition that are not
  combining marks, so diacritics do not count) are pairwise equal, or both a hyphen or
  whitespace, or alphanumeric with the same lower case, neither being the capital sigma
  U+03A3.
\<close>

theorem normalize_name_insensitive:
  assumes "lib_ok U"
  shows "normalize_name U (normalize_name U n) = normalize_name U n \<and>
         ((\<forall>c \<in> set l \<union> set r. isspace U c) \<and>
          list_all2 (similar U) (base_chars U a) (base_chars U b) \<longrightarrow>
          normalize_name U (l @ a @ r) = normalize_name U b)"
proof (intro conjI impI)
  show "normalize_name U (normalize_name U n) = normalize_name U n"
    by (rule normalize_name_idem[OF assms])
next
  assume h: "(\<forall>c \<in> set l \<union> set r. isspace U c) \<and>
          list_all2 (similar U) (base_chars U a) (base_chars U b)"
  then have "normalize_name U (l @ a @ r) = normalize_name U a"
    by (intro normalize_name_trim[OF assms]) simp_all
  also from h have "\<dots> = normalize_name U b"
    by (intro normalize_name_similar[OF assms]) simp
  finally show "normalize_name U (l @ a @ r) = normalize_name U b" .
qed

theorem normalize_name_insensitive_witness:
  "list_all2 (similar ucd)
     (base_chars ucd (ustr ''Jos'' @ [0xE9] @ ustr '' Garc'' @ [0xED] @ ustr ''a''))
     (base_chars ucd (ustr ''JOSE-GARCIA'')) \<and>
   list_all2 (similar ucd)
     (base_chars ucd (ustr ''Jos'' @ [0xE9] @ ustr '' Garc'' @ [0xED] @ ustr ''a''))
     (base_chars ucd (ustr ''jose garcia'')) \<and>
   normalize_name ucd
     (ustr ''  '' @ (ustr ''Jos'' @ [0xE9] @ ustr '' Garc'' @ [0xED] @ ustr ''a'') @ [9, 32]) =
     normalize_name ucd (ustr ''JOSE-GARCIA'') \<and>
   normalize_name ucd (ustr ''Jos'' @ [0xE9] @ ustr '' Garc'' @ [0xED] @ ustr ''a'') =
     normalize_name ucd (ustr ''jose garcia'') \<and>
   normalize_name ucd (ustr ''JOSE-GARCIA'') = ustr ''jose garcia'' \<and>
   normalize_name ucd (ustr ''jose garcia'') = ustr ''jose garcia'' \<and>
   normalize_name ucd (normalize_name ucd (ustr ''JOSE-GARCIA'')) = ustr ''jose garcia''"
proof -
  let ?jose = "ustr ''Jos'' @ [0xE9] @ ustr '' Garc'' @ [0xED] @ ustr ''a''"
  have s1: "list_all2 (similar ucd) (base_chars ucd ?jose) (base_chars ucd (ustr ''JOSE-GARCIA''))"
    by code_simp
  have s2: "list_all2 (similar ucd) (base_chars ucd ?jose) (base_chars ucd (ustr ''jose garcia''))"
    by code_simp
  have w1: "\<forall>c \<in> set (ustr ''  '') \<union> set [9, 32]. isspace ucd c"
    by (simp add: ustr_def ucd_sel ucd_isspace_def)
  have w2: "\<forall>c \<in> set [] \<union> set []. isspace ucd c"
    by simp
  have v: "normalize_name ucd (ustr ''JOSE-GARCIA'') = ustr ''jose garcia''"
    by code_simp
  note t1 = normalize_name_insensitive[OF lib_ok_ucd, of "ustr ''JOSE-GARCIA''" "ustr ''  ''" "[9, 32]"
      ?jose "ustr ''JOSE-GARCIA''"]
  note t2 = normalize_name_insensitive[OF lib_ok_ucd, of "ustr ''jose garcia''" "[]" "[]"
      ?jose "ustr ''jose garcia''"]
  from t1 w1 s1 have e1: "normalize_name ucd (ustr ''  '' @ ?jose @ [9, 32]) =
      normalize_name ucd (ustr ''JOSE-GARCIA'')"
    by blast
  from t2 w2 s2 have "normalize_name ucd ([] @ ?jose @ []) = normalize_name ucd (ustr ''jose garcia'')"
    by blast
  then have e2: "normalize_name ucd ?jose = normalize_name ucd (ustr ''jose garcia'')"
    by (simp only: append_Nil append_Nil2)
  from t1 have i1: "normalize_name ucd (normalize_name ucd (ustr ''JOSE-GARCIA'')) =
      normalize_name ucd (ustr ''JOSE-GARCIA'')"
    by blast
  have v2: "normalize_name ucd (ustr ''jose garcia'') = ustr ''jose garcia''"
    using i1 unfolding v .
  have i3: "normalize_name ucd (normalize_name ucd (ustr ''JOSE-GARCIA'')) = ustr ''jose garcia''"
    using i1 unfolding v v2 .
  from s1 s2 e1 e2 v v2 i3 show ?thesis by (intro conjI)
qed

subsection \<open>The shape of a normalized name\<close>




end
